theory Spec2Isabelle
  imports Main
begin

section \<open>Strings and regular expressions\<close>

text \<open>
  A JavaScript string is a sequence of UTF-16 code units; \<open>length\<close> counts code units,
  \<open>charCodeAt\<close> reads one. Literals of the source are ASCII, so \<open>str\<close> turns an
  Isabelle string literal into the code units of the same JavaScript literal.
\<close>

type_synonym jsstring = "nat list"

definition str :: "string \<Rightarrow> jsstring" where
  "str s = map of_char s"

text \<open>
  The patterns of the source are built from character classes, literal characters,
  concatenation, alternation and the greedy quantifiers \<open>*\<close>, \<open>+\<close>, \<open>?\<close> and \<open>{4}\<close>.
  A class lists inclusive ranges of character codes.
\<close>

datatype regex =
    Eps
  | Chr nat
  | Cls "(nat \<times> nat) list"
  | NCls "(nat \<times> nat) list"
  | Seq regex regex
  | Alt regex regex
  | Star regex

definition Opt :: "regex \<Rightarrow> regex" where
  "Opt r = Alt r Eps"

definition Plus :: "regex \<Rightarrow> regex" where
  "Plus r = Seq r (Star r)"

definition Rep4 :: "regex \<Rightarrow> regex" where
  "Rep4 r = Seq r (Seq r (Seq r r))"

fun Lit :: "jsstring \<Rightarrow> regex" where
  "Lit [] = Eps"
| "Lit [c] = Chr c"
| "Lit (c # cs) = Seq (Chr c) (Lit cs)"

fun in_ranges :: "nat \<Rightarrow> (nat \<times> nat) list \<Rightarrow> bool" where
  "in_ranges c [] = False"
| "in_ranges c ((lo, hi) # rs) = ((lo \<le> c \<and> c \<le> hi) \<or> in_ranges c rs)"

text \<open>
  The character at the head of the input. Without the \<open>u\<close> flag it is one code unit.
  With the flag it is one code point: a high surrogate followed by a low surrogate is
  read as a single character of two code units.
\<close>

definition is_high :: "nat \<Rightarrow> bool" where
  "is_high c = (55296 \<le> c \<and> c \<le> 56319)"

definition is_low :: "nat \<Rightarrow> bool" where
  "is_low c = (56320 \<le> c \<and> c \<le> 57343)"

fun next_char :: "bool \<Rightarrow> jsstring \<Rightarrow> (nat \<times> jsstring) option" where
  "next_char u [] = None"
| "next_char u [c] = Some (c, [])"
| "next_char u (c # d # s) =
     (if u \<and> is_high c \<and> is_low d
      then Some (65536 + (c - 55296) * 1024 + (d - 56320), s)
      else Some (c, d # s))"

text \<open>
  Backtracking matching at the start of the input: \<open>matches u r s\<close> lists, in the order
  the backtracking matcher tries them, the inputs left after each way \<open>r\<close> can match a
  prefix of \<open>s\<close>. Alternatives are tried left to right; a quantifier takes another
  iteration before it stops, and an iteration that consumes nothing is rejected.
\<close>

function matches :: "bool \<Rightarrow> regex \<Rightarrow> jsstring \<Rightarrow> jsstring list" where
  "matches u Eps s = [s]"
| "matches u (Chr c) s =
     (case next_char u s of None \<Rightarrow> [] | Some (x, t) \<Rightarrow> if x = c then [t] else [])"
| "matches u (Cls rs) s =
     (case next_char u s of None \<Rightarrow> [] | Some (x, t) \<Rightarrow> if in_ranges x rs then [t] else [])"
| "matches u (NCls rs) s =
     (case next_char u s of None \<Rightarrow> [] | Some (x, t) \<Rightarrow> if in_ranges x rs then [] else [t])"
| "matches u (Seq a b) s = concat (map (matches u b) (matches u a s))"
| "matches u (Alt a b) s = matches u a s @ matches u b s"
| "matches u (Star a) s =
     concat (map (\<lambda>t. if length t < length s then matches u (Star a) t else []) (matches u a s))
     @ [s]"
  by pat_completeness auto
termination
  by (relation "measures [\<lambda>(u, r, s). size r, \<lambda>(u, r, s). length s]") auto

lemmas matches_Star = matches.simps(7)

declare matches.simps(7) [simp del]

text \<open>\<open>input.match(regex)\<close> for a pattern anchored with \<open>^\<close>: the matched text, if any.\<close>

definition regex_match :: "bool \<Rightarrow> regex \<Rightarrow> jsstring \<Rightarrow> jsstring option" where
  "regex_match u r s =
     (case matches u r s of [] \<Rightarrow> None | t # _ \<Rightarrow> Some (take (length s - length t) s))"

subsection \<open>The patterns of the grammar\<close>

definition S_DIGIT :: regex where
  "S_DIGIT = Cls [(48, 57)]"

definition S_DIGITS :: regex where
  "S_DIGITS = Plus (Cls [(48, 57)])"

definition S_ONENINE :: regex where
  "S_ONENINE = Cls [(49, 57)]"

definition S_INT :: regex where
  "S_INT = Seq (Opt (Chr 45)) (Alt (Seq S_ONENINE S_DIGITS) S_DIGIT)"

definition S_FRAC :: regex where
  "S_FRAC = Seq (Chr 46) S_DIGITS"

definition S_EXP :: regex where
  "S_EXP = Seq (Cls [(101, 101), (69, 69)]) (Seq (Cls [(43, 43), (45, 45)]) S_DIGITS)"

definition S_HEX :: regex where
  "S_HEX = Cls [(48, 57), (97, 102), (65, 70)]"

definition S_ESCAPE :: regex where
  "S_ESCAPE =
     Alt (Cls [(92, 92), (34, 34), (98, 98), (102, 102), (110, 110), (114, 114), (116, 116),
               (10, 10), (13, 13)])
         (Seq (Chr 117) (Rep4 S_HEX))"

definition S_CHAR :: regex where
  "S_CHAR =
     Alt (Seq (Chr 92) S_ESCAPE)
         (NCls [(0, 31), (98, 98), (34, 34), (92, 92), (13, 13), (10, 10)])"

definition S_STRING :: regex where
  "S_STRING = Seq (Chr 34) (Seq (Star S_CHAR) (Chr 34))"

definition S_PUNC :: regex where
  "S_PUNC = Cls [(34, 34), (58, 58), (44, 44), (91, 91), (93, 93), (123, 123), (125, 125)]"

definition S_BOOL :: regex where
  "S_BOOL = Alt (Lit (str ''true'')) (Lit (str ''false''))"

definition S_NUMBER :: regex where
  "S_NUMBER = Alt (Seq S_FRAC (Opt S_EXP)) (Seq S_INT (Seq (Opt S_FRAC) (Opt S_EXP)))"

definition S_NULL :: regex where
  "S_NULL = Lit (str ''null'')"

section \<open>Tokens\<close>

datatype toktype = TOKEN_STRING | TOKEN_PUNCTUATOR | TOKEN_NUMBER | TOKEN_BOOLEAN | TOKEN_NULL

record token =
  t_type :: toktype
  t_value :: jsstring
  t_start :: nat
  t_end :: nat

definition Token :: "toktype \<Rightarrow> jsstring \<Rightarrow> nat \<Rightarrow> token" where
  "Token ty v s = \<lparr>t_type = ty, t_value = v, t_start = s, t_end = s + length v\<rparr>"

text \<open>The grammar table: the token kind, whether the pattern has the \<open>u\<close> flag, the pattern.\<close>

definition grammar :: "(toktype \<times> bool \<times> regex) list" where
  "grammar =
     [(TOKEN_STRING, True, S_STRING),
      (TOKEN_NUMBER, False, S_NUMBER),
      (TOKEN_PUNCTUATOR, False, S_PUNC),
      (TOKEN_BOOLEAN, False, S_BOOL),
      (TOKEN_NULL, False, S_NULL)]"

section \<open>The lexer\<close>

record lexer =
  index :: nat
  source :: jsstring
  input :: jsstring
  stash :: "token list"

definition Lexer :: "jsstring \<Rightarrow> lexer" where
  "Lexer inp = \<lparr>index = 0, source = inp, input = inp, stash = []\<rparr>"

text \<open>
  Errors are values. \<open>Error m\<close> is \<open>throw new Error(m)\<close>. Reading \<open>.value\<close> of \<open>null\<close> or
  of \<open>undefined\<close> raises a TypeError, and reading a variable that was never declared
  raises a ReferenceError; their messages are the engine's and are not modelled.
\<close>

datatype error =
    Error jsstring
  | TypeError_null
  | TypeError_undefined
  | ReferenceError

definition hasEnded :: "lexer \<Rightarrow> bool" where
  "hasEnded lx = (index lx \<ge> length (source lx))"

text \<open>
  \<open>forward\<close> is only called with a count that is not negative, so
  \<open>Math.max(0, start + times)\<close> is \<open>start + times\<close>; \<open>substr\<close> past the end is empty.
\<close>

definition forward :: "nat \<Rightarrow> lexer \<Rightarrow> lexer" where
  "forward n lx =
     lx\<lparr>index := index lx + n, input := drop (index lx + n) (source lx)\<rparr>"

text \<open>\<open>charCodeAt\<close> is \<open>NaN\<close> out of range, which equals no number.\<close>

definition charCodeAt :: "jsstring \<Rightarrow> nat \<Rightarrow> nat option" where
  "charCodeAt s i = (if i < length s then Some (s ! i) else None)"

text \<open>The loop of \<open>skipWhitespace\<close>: the value of \<open>i\<close> when the loop ends.\<close>

function skip_loop :: "jsstring \<Rightarrow> nat \<Rightarrow> nat" where
  "skip_loop src i =
     (if i < length src then
        (if src ! i = 13 then
           (if charCodeAt src (i + 1) = Some 10 then skip_loop src (i + 1 + 1)
            else skip_loop src (i + 1))
         else if 0 \<le> src ! i \<and> src ! i \<le> 32 then skip_loop src (i + 1)
         else i)
      else i)"
  by pat_completeness auto
termination
  by (relation "measure (\<lambda>(src, i). length src - i)") auto

declare skip_loop.simps [simp del]

definition skipWhitespace :: "lexer \<Rightarrow> lexer" where
  "skipWhitespace lx = forward (skip_loop (source lx) (index lx) - index lx) lx"

text \<open>\<open>source[index]\<close> inside a template literal: the character, or the text \<open>undefined\<close>.\<close>

definition char_at_text :: "jsstring \<Rightarrow> nat \<Rightarrow> jsstring" where
  "char_at_text s i = (if i < length s then [s ! i] else str ''undefined'')"

text \<open>The loop over the grammar table inside \<open>lex\<close>, after the first \<open>skipWhitespace\<close>.\<close>

fun lex_grammar :: "(toktype \<times> bool \<times> regex) list \<Rightarrow> lexer \<Rightarrow> error + token \<times> lexer" where
  "lex_grammar [] lx =
     Inl (Error (str ''Unexpected token '' @ [39] @ char_at_text (source lx) (index lx) @ [39]))"
| "lex_grammar ((ty, u, regex) # g) lx =
     (case regex_match u regex (input lx) of
        Some m \<Rightarrow>
          (let token = Token ty m (index lx) in
           Inr (token, skipWhitespace (forward (length (t_value token)) lx)))
      | None \<Rightarrow> lex_grammar g lx)"

definition lex :: "lexer \<Rightarrow> error + token \<times> lexer" where
  "lex lx = lex_grammar grammar (skipWhitespace lx)"

text \<open>
  \<open>lookahead\<close>: the loop runs \<open>index + 1\<close> times unless the input ends first, and each
  round lexes one more token onto the end of the stash. \<open>None\<close> is \<open>null\<close>.
\<close>

fun lookahead_loop :: "nat \<Rightarrow> lexer \<Rightarrow> error + lexer" where
  "lookahead_loop 0 lx = Inr lx"
| "lookahead_loop (Suc n) lx =
     (if hasEnded lx then Inr lx
      else (case lex lx of
              Inl e \<Rightarrow> Inl e
            | Inr (token, lx') \<Rightarrow> lookahead_loop n (lx'\<lparr>stash := stash lx' @ [token]\<rparr>)))"

definition lookahead :: "int \<Rightarrow> lexer \<Rightarrow> error + token option \<times> lexer" where
  "lookahead i lx =
     (if i < 0 then Inl (Error (str ''Lookahead index can not be less than 0''))
      else (case lookahead_loop (nat i + 1) lx of
              Inl e \<Rightarrow> Inl e
            | Inr lx' \<Rightarrow>
                if nat i < length (stash lx') then Inr (Some (stash lx' ! nat i), lx')
                else Inr (None, lx')))"

definition peek :: "lexer \<Rightarrow> error + token option \<times> lexer" where
  "peek lx = lookahead 0 lx"

text \<open>\<open>next\<close>: \<open>None\<close> is the result \<open>{done: true, value: undefined}\<close>.\<close>

definition next_token :: "lexer \<Rightarrow> error + token option \<times> lexer" where
  "next_token lx =
     (if length (stash lx) > 0 then Inr (Some (hd (stash lx)), lx\<lparr>stash := tl (stash lx)\<rparr>)
      else if hasEnded lx then Inr (None, lx)
      else (case lex lx of
              Inl e \<Rightarrow> Inl e
            | Inr (token, lx') \<Rightarrow> Inr (Some token, lx')))"

text \<open>
  \<open>Lexer.all\<close>, from any state of the lexer: the \<open>for ... of\<close> loop collects the tokens that
  \<open>next\<close> returns until it is done. \<open>lexer_all (Lexer src) ts\<close> says that \<open>Lexer.all(src)\<close>
  returns \<open>ts\<close>; it holds for no \<open>ts\<close> when a call of \<open>next\<close> raises.
\<close>

inductive lexer_all :: "lexer \<Rightarrow> token list \<Rightarrow> bool" where
  all_done: "next_token lx = Inr (None, lx') \<Longrightarrow> lexer_all lx []"
| all_more: "next_token lx = Inr (Some t, lx') \<Longrightarrow> lexer_all lx' ts \<Longrightarrow> lexer_all lx (t # ts)"

section \<open>The syntax tree\<close>

text \<open>
  One constructor for each node class, with the fields its constructor assigns after the
  \<open>type\<close> tag. A span field that can hold \<open>undefined\<close> is a \<open>nat option\<close>: the
  constructor of \<open>NullLiteral\<close> assigns \<open>end\<close> from its second parameter, and the
  constructor of \<open>Property\<close> assigns \<open>start\<close> and \<open>end\<close> from its parameters and never
  assigns its \<open>value\<close> parameter to a field.
\<close>

datatype node =
    BooleanLiteral jsstring nat nat
  | StringLiteral jsstring nat nat
  | NullLiteral nat "nat option"
  | NumericLiteral jsstring nat nat
  | ArrayLiteral "node list" nat nat
  | ObjectLiteral "property list" nat nat
and property =
    PropertyNode (p_key: token) (p_start: "nat option") (p_end: "nat option")

definition Property :: "token \<Rightarrow> node \<Rightarrow> nat option \<Rightarrow> nat option \<Rightarrow> property" where
  "Property key v start end = PropertyNode key start end"

fun node_type :: "node \<Rightarrow> string" where
  "node_type (BooleanLiteral v s e) = ''BooleanLiteral''"
| "node_type (StringLiteral v s e) = ''StringLiteral''"
| "node_type (NullLiteral s e) = ''NullLiteral''"
| "node_type (NumericLiteral v s e) = ''NumericLiteral''"
| "node_type (ArrayLiteral xs s e) = ''ArrayLiteral''"
| "node_type (ObjectLiteral ps s e) = ''ObjectLiteral''"

definition p_type :: "property \<Rightarrow> string" where
  "p_type p = ''Property''"

fun node_start :: "node \<Rightarrow> nat" where
  "node_start (BooleanLiteral v s e) = s"
| "node_start (StringLiteral v s e) = s"
| "node_start (NullLiteral s e) = s"
| "node_start (NumericLiteral v s e) = s"
| "node_start (ArrayLiteral xs s e) = s"
| "node_start (ObjectLiteral ps s e) = s"

fun node_end :: "node \<Rightarrow> nat option" where
  "node_end (BooleanLiteral v s e) = Some e"
| "node_end (StringLiteral v s e) = Some e"
| "node_end (NullLiteral s e) = e"
| "node_end (NumericLiteral v s e) = Some e"
| "node_end (ArrayLiteral xs s e) = Some e"
| "node_end (ObjectLiteral ps s e) = Some e"

section \<open>The parser\<close>

text \<open>
  The parser owns one lexer, so its methods pass the lexer along. In \<open>ensure\<close> the
  template literal prints the \<open>arguments\<close> object, which reads \<open>[object Arguments]\<close>; with
  no token left, \<open>token.value\<close> reads a field of \<open>undefined\<close>. In \<open>ensureType\<close> the
  template literal reads \<open>token.value\<close> and then the variable \<open>value\<close>, which is declared
  nowhere.
\<close>

definition ensure :: "jsstring list \<Rightarrow> lexer \<Rightarrow> error + token \<times> lexer" where
  "ensure args lx =
     (case next_token lx of
        Inl e \<Rightarrow> Inl e
      | Inr (None, lx') \<Rightarrow> Inl TypeError_undefined
      | Inr (Some token, lx') \<Rightarrow>
          if list_ex (\<lambda>a. t_value token = a) args then Inr (token, lx')
          else Inl (Error (str ''Expected '' @ [39] @ str ''[object Arguments]'' @ [39]
                           @ str '', got '' @ [39] @ t_value token @ [39])))"

definition ensureType :: "toktype list \<Rightarrow> lexer \<Rightarrow> error + token \<times> lexer" where
  "ensureType args lx =
     (case next_token lx of
        Inl e \<Rightarrow> Inl e
      | Inr (None, lx') \<Rightarrow> Inl TypeError_undefined
      | Inr (Some token, lx') \<Rightarrow>
          if list_ex (\<lambda>a. t_type token = a) args then Inr (token, lx')
          else Inl ReferenceError)"

text \<open>\<open>is\<close>: \<open>peek\<close> returns \<open>null\<close> when nothing is left, and \<open>null.value\<close> raises.\<close>

definition is_value :: "jsstring \<Rightarrow> lexer \<Rightarrow> error + bool \<times> lexer" where
  "is_value v lx =
     (case peek lx of
        Inl e \<Rightarrow> Inl e
      | Inr (None, lx') \<Rightarrow> Inl TypeError_null
      | Inr (Some token, lx') \<Rightarrow> Inr (t_value token = v, lx'))"

text \<open>The literal node of \<open>parseValue\<close> for a token; \<open>None\<close> is \<open>node == null\<close>.\<close>

definition literal_node :: "token \<Rightarrow> node option" where
  "literal_node token =
     (if t_type token = TOKEN_BOOLEAN
        then Some (BooleanLiteral (t_value token) (t_start token) (t_end token))
      else if t_type token = TOKEN_STRING
        then Some (StringLiteral (t_value token) (t_start token) (t_end token))
      else if t_type token = TOKEN_NUMBER
        then Some (NumericLiteral (t_value token) (t_start token) (t_end token))
      else if t_type token = TOKEN_NULL
        then Some (NullLiteral (t_start token) None)
      else None)"

text \<open>
  The recursive descent. The first argument bounds the depth of the calls and the number
  of rounds of the loops; \<open>None\<close> means that the bound was reached. \<open>objectLoop\<close> and
  \<open>arrayLoop\<close> are the \<open>while\<close> loops of \<open>parseObjectLiteral\<close> and \<open>parseArrayLiteral\<close>.
\<close>

fun parseValue :: "nat \<Rightarrow> lexer \<Rightarrow> (error + node \<times> lexer) option"
and parseObjectLiteral :: "nat \<Rightarrow> lexer \<Rightarrow> (error + node \<times> lexer) option"
and objectLoop :: "nat \<Rightarrow> property list \<Rightarrow> lexer \<Rightarrow> (error + property list \<times> lexer) option"
and parseArrayLiteral :: "nat \<Rightarrow> lexer \<Rightarrow> (error + node \<times> lexer) option"
and arrayLoop :: "nat \<Rightarrow> node list \<Rightarrow> lexer \<Rightarrow> (error + node list \<times> lexer) option"
where
  "parseValue 0 lx = None"
| "parseValue (Suc n) lx =
     (case peek lx of
        Inl e \<Rightarrow> Some (Inl e)
      | Inr (None, lx1) \<Rightarrow> Some (Inl (Error (str ''Unexpected end of input'')))
      | Inr (Some token, lx1) \<Rightarrow>
          (case is_value (str ''{'') lx1 of
             Inl e \<Rightarrow> Some (Inl e)
           | Inr (True, lx2) \<Rightarrow> parseObjectLiteral n lx2
           | Inr (False, lx2) \<Rightarrow>
               (case is_value (str ''['') lx2 of
                  Inl e \<Rightarrow> Some (Inl e)
                | Inr (True, lx3) \<Rightarrow> parseArrayLiteral n lx3
                | Inr (False, lx3) \<Rightarrow>
                    (case literal_node token of
                       Some node \<Rightarrow>
                         (case next_token lx3 of
                            Inl e \<Rightarrow> Some (Inl e)
                          | Inr (_, lx4) \<Rightarrow> Some (Inr (node, lx4)))
                     | None \<Rightarrow> Some (Inl (Error (str ''Unexpected token '' @ t_value token)))))))"
| "parseObjectLiteral n lx =
     (case ensure [str ''{''] lx of
        Inl e \<Rightarrow> Some (Inl e)
      | Inr (startToken, lx1) \<Rightarrow>
          (case objectLoop n [] lx1 of
             None \<Rightarrow> None
           | Some (Inl e) \<Rightarrow> Some (Inl e)
           | Some (Inr (properties, lx2)) \<Rightarrow>
               (case ensure [str ''}''] lx2 of
                  Inl e \<Rightarrow> Some (Inl e)
                | Inr (endToken, lx3) \<Rightarrow>
                    Some (Inr (ObjectLiteral properties (t_start startToken) (t_end endToken), lx3)))))"
| "objectLoop 0 properties lx = None"
| "objectLoop (Suc n) properties lx =
     (case is_value (str ''}'') lx of
        Inl e \<Rightarrow> Some (Inl e)
      | Inr (True, lx1) \<Rightarrow> Some (Inr (properties, lx1))
      | Inr (False, lx1) \<Rightarrow>
          (case ensureType [TOKEN_STRING, TOKEN_NUMBER] lx1 of
             Inl e \<Rightarrow> Some (Inl e)
           | Inr (key, lx2) \<Rightarrow>
               (case ensure [str '':''] lx2 of
                  Inl e \<Rightarrow> Some (Inl e)
                | Inr (_, lx3) \<Rightarrow>
                    (case parseValue n lx3 of
                       None \<Rightarrow> None
                     | Some (Inl e) \<Rightarrow> Some (Inl e)
                     | Some (Inr (v, lx4)) \<Rightarrow>
                         (case is_value (str ''}'') lx4 of
                            Inl e \<Rightarrow> Some (Inl e)
                          | Inr (True, lx5) \<Rightarrow>
                              objectLoop n
                                (properties @ [Property key v (Some (t_start key)) (node_end v)]) lx5
                          | Inr (False, lx5) \<Rightarrow>
                              (case ensure [str '',''] lx5 of
                                 Inl e \<Rightarrow> Some (Inl e)
                               | Inr (_, lx6) \<Rightarrow>
                                   objectLoop n
                                     (properties @ [Property key v (Some (t_start key)) (node_end v)])
                                     lx6))))))"
| "parseArrayLiteral n lx =
     (case ensure [str ''[''] lx of
        Inl e \<Rightarrow> Some (Inl e)
      | Inr (startToken, lx1) \<Rightarrow>
          (case arrayLoop n [] lx1 of
             None \<Rightarrow> None
           | Some (Inl e) \<Rightarrow> Some (Inl e)
           | Some (Inr (elements, lx2)) \<Rightarrow>
               (case ensure [str '']''] lx2 of
                  Inl e \<Rightarrow> Some (Inl e)
                | Inr (endToken, lx3) \<Rightarrow>
                    Some (Inr (ArrayLiteral elements (t_start startToken) (t_end endToken), lx3)))))"
| "arrayLoop 0 elements lx = None"
| "arrayLoop (Suc n) elements lx =
     (case is_value (str '']'') lx of
        Inl e \<Rightarrow> Some (Inl e)
      | Inr (True, lx1) \<Rightarrow> Some (Inr (elements, lx1))
      | Inr (False, lx1) \<Rightarrow>
          (case parseValue n lx1 of
             None \<Rightarrow> None
           | Some (Inl e) \<Rightarrow> Some (Inl e)
           | Some (Inr (v, lx2)) \<Rightarrow>
               (case is_value (str '']'') lx2 of
                  Inl e \<Rightarrow> Some (Inl e)
                | Inr (True, lx3) \<Rightarrow> arrayLoop n (elements @ [v]) lx3
                | Inr (False, lx3) \<Rightarrow>
                    (case ensure [str '',''] lx3 of
                       Inl e \<Rightarrow> Some (Inl e)
                     | Inr (_, lx4) \<Rightarrow> arrayLoop n (elements @ [v]) lx4))))"

text \<open>
  \<open>parse\<close> returns \<open>{ program: parseValue() }\<close>; the model returns the node of \<open>program\<close>.
\<close>

definition parse :: "nat \<Rightarrow> jsstring \<Rightarrow> (error + node) option" where
  "parse n inp =
     (case parseValue n (Lexer inp) of
        None \<Rightarrow> None
      | Some (Inl e) \<Rightarrow> Some (Inl e)
      | Some (Inr (program, lx)) \<Rightarrow> Some (Inr program))"

text \<open>
  The rounds of the \<open>while\<close> loop of \<open>parseObjectLiteral\<close>, as a relation: from the lexer
  state \<open>lx\<close> the loop runs to the state \<open>lx'\<close> where \<open>is('}')\<close> holds, and \<open>kvs\<close> lists, round
  by round, the token that \<open>ensureType\<close> returned for \<open>key\<close> and the node that \<open>parseValue\<close>
  returned for \<open>value\<close>. Every step is a call of the loop body on the state that the call
  before it left. The first argument is the bound of \<open>objectLoop\<close>.
\<close>

inductive object_rounds :: "nat \<Rightarrow> lexer \<Rightarrow> (token \<times> node) list \<Rightarrow> lexer \<Rightarrow> bool" where
  closing:
    "is_value (str ''}'') lx = Inr (True, lx1) \<Longrightarrow> object_rounds (Suc n) lx [] lx1"
| member_then_brace:
    "is_value (str ''}'') lx = Inr (False, lx1) \<Longrightarrow>
     ensureType [TOKEN_STRING, TOKEN_NUMBER] lx1 = Inr (key, lx2) \<Longrightarrow>
     ensure [str '':''] lx2 = Inr (colon, lx3) \<Longrightarrow>
     parseValue n lx3 = Some (Inr (v, lx4)) \<Longrightarrow>
     is_value (str ''}'') lx4 = Inr (True, lx5) \<Longrightarrow>
     object_rounds n lx5 kvs lx' \<Longrightarrow>
     object_rounds (Suc n) lx ((key, v) # kvs) lx'"
| member_then_comma:
    "is_value (str ''}'') lx = Inr (False, lx1) \<Longrightarrow>
     ensureType [TOKEN_STRING, TOKEN_NUMBER] lx1 = Inr (key, lx2) \<Longrightarrow>
     ensure [str '':''] lx2 = Inr (colon, lx3) \<Longrightarrow>
     parseValue n lx3 = Some (Inr (v, lx4)) \<Longrightarrow>
     is_value (str ''}'') lx4 = Inr (False, lx5) \<Longrightarrow>
     ensure [str '',''] lx5 = Inr (comma, lx6) \<Longrightarrow>
     object_rounds n lx6 kvs lx' \<Longrightarrow>
     object_rounds (Suc n) lx ((key, v) # kvs) lx'"

section \<open>The grammar in the words of the specification\<close>

text \<open>
  The number grammar in the words of the specification: digits, an integer (an optional
  minus sign, then one digit or a nonzero digit followed by one or more digits), a
  fraction (a dot and digits) and an exponent (\<open>e\<close> or \<open>E\<close>, a sign, digits).
\<close>

definition is_digit :: "nat \<Rightarrow> bool" where
  "is_digit c = (48 \<le> c \<and> c \<le> 57)"

definition spec_digits :: "jsstring \<Rightarrow> bool" where
  "spec_digits ds = (ds \<noteq> [] \<and> list_all is_digit ds)"

definition spec_integer :: "jsstring \<Rightarrow> bool" where
  "spec_integer i =
     (\<exists>sign body. i = sign @ body \<and> (sign = [] \<or> sign = [45]) \<and>
        ((\<exists>d. body = [d] \<and> is_digit d)
         \<or> (\<exists>d ds. body = d # ds \<and> 49 \<le> d \<and> d \<le> 57 \<and> spec_digits ds)))"

definition spec_fraction :: "jsstring \<Rightarrow> bool" where
  "spec_fraction f = (\<exists>ds. f = 46 # ds \<and> spec_digits ds)"

definition spec_exponent :: "jsstring \<Rightarrow> bool" where
  "spec_exponent e =
     (\<exists>x sg ds. e = x # sg # ds \<and> (x = 101 \<or> x = 69) \<and> (sg = 43 \<or> sg = 45) \<and> spec_digits ds)"

definition spec_number :: "jsstring \<Rightarrow> bool" where
  "spec_number p =
     ((\<exists>f e. p = f @ e \<and> spec_fraction f \<and> (e = [] \<or> spec_exponent e))
      \<or> (\<exists>i f e. p = i @ f @ e \<and> spec_integer i \<and> (f = [] \<or> spec_fraction f)
            \<and> (e = [] \<or> spec_exponent e)))"

text \<open>A numeral with a signed exponent: a number of the grammar whose exponent part is there.\<close>

definition signed_exponent_numeral :: "jsstring \<Rightarrow> bool" where
  "signed_exponent_numeral p =
     ((\<exists>f e. p = f @ e \<and> spec_fraction f \<and> spec_exponent e)
      \<or> (\<exists>i f e. p = i @ f @ e \<and> spec_integer i \<and> (f = [] \<or> spec_fraction f)
            \<and> spec_exponent e))"

text \<open>
  The string grammar in the words of the specification. An escape is a backslash followed
  by one of \<open>\ " b f n r t\<close>, by a line feed, by a carriage return, or by \<open>u\<close> and four
  hexadecimal digits. A plain character is any character that is not a control
  character (0 to 31), not \<open>b\<close>, not \<open>"\<close>, not \<open>\\<close>, not a carriage return and not a
  line feed. Characters are counted in code units here: a character outside the basic
  plane is two surrogate code units, and each of them is a plain character.
\<close>

definition is_hex :: "nat \<Rightarrow> bool" where
  "is_hex c = ((48 \<le> c \<and> c \<le> 57) \<or> (97 \<le> c \<and> c \<le> 102) \<or> (65 \<le> c \<and> c \<le> 70))"

definition spec_escape :: "jsstring \<Rightarrow> bool" where
  "spec_escape e =
     ((\<exists>x. e = [92, x] \<and> x \<in> {92, 34, 98, 102, 110, 114, 116, 10, 13})
      \<or> (\<exists>h1 h2 h3 h4. e = [92, 117, h1, h2, h3, h4]
            \<and> is_hex h1 \<and> is_hex h2 \<and> is_hex h3 \<and> is_hex h4))"

definition plain_char :: "nat \<Rightarrow> bool" where
  "plain_char c = (31 < c \<and> c \<noteq> 98 \<and> c \<noteq> 34 \<and> c \<noteq> 92 \<and> c \<noteq> 13 \<and> c \<noteq> 10)"

inductive string_chars :: "jsstring \<Rightarrow> bool" where
  no_chars: "string_chars []"
| escape: "spec_escape e \<Longrightarrow> string_chars r \<Longrightarrow> string_chars (e @ r)"
| plain: "plain_char c \<Longrightarrow> string_chars r \<Longrightarrow> string_chars (c # r)"

definition spec_string :: "jsstring \<Rightarrow> bool" where
  "spec_string p = (\<exists>body. p = 34 # body @ [34] \<and> string_chars body)"

text \<open>Text that cannot continue a number: it is empty or starts with no digit, dot or \<open>e\<close>.\<close>

definition ends_number :: "jsstring \<Rightarrow> bool" where
  "ends_number t = (t = [] \<or> \<not> is_digit (hd t) \<and> hd t \<noteq> 46 \<and> hd t \<noteq> 101 \<and> hd t \<noteq> 69)"

section \<open>Auxiliary notions for the proofs\<close>

text \<open>
  An input is cut cleanly when it does not end with a high surrogate: with the \<open>u\<close>
  flag, text appended to it cannot then join its last code unit into one character.
\<close>

definition uncut :: "bool \<Rightarrow> jsstring \<Rightarrow> bool" where
  "uncut u s = (u \<longrightarrow> s = [] \<or> \<not> is_high (last s))"

text \<open>
  The errors that the parser raises by itself, for tokens with a property \<open>T\<close>, and the
  nodes that are built from such tokens.
\<close>

definition parser_error :: "(token \<Rightarrow> bool) \<Rightarrow> error \<Rightarrow> bool" where
  "parser_error T e =
     (e = TypeError_null \<or> e = TypeError_undefined \<or> e = ReferenceError
      \<or> e = Error (str ''Unexpected end of input'')
      \<or> (\<exists>tok. T tok \<and> e = Error (str ''Unexpected token '' @ t_value tok))
      \<or> (\<exists>tok. T tok \<and> e = Error (str ''Expected '' @ [39] @ str ''[object Arguments]'' @ [39]
                           @ str '', got '' @ [39] @ t_value tok @ [39])))"

fun built_from :: "(token \<Rightarrow> bool) \<Rightarrow> node \<Rightarrow> bool" where
  "built_from T (ArrayLiteral xs s e) = (\<forall>x \<in> set xs. built_from T x)"
| "built_from T (ObjectLiteral ps s e) = (\<forall>p \<in> set ps. T (p_key p))"
| "built_from T v = (\<exists>tok. T tok \<and> literal_node tok = Some v)"

definition ok_result ::
  "(lexer \<Rightarrow> bool) \<Rightarrow> (error \<Rightarrow> bool) \<Rightarrow> ('a \<Rightarrow> bool) \<Rightarrow> (error + 'a \<times> lexer) \<Rightarrow> bool" where
  "ok_result I E P r = (case r of Inl e \<Rightarrow> E e | Inr (x, lx) \<Rightarrow> I lx \<and> P x)"

text \<open>
  The error of the lexer for a source text: the message names the character at some
  offset where skipping stopped, or reads \<open>undefined\<close> past the end, and nothing else.
\<close>

definition lexical_error :: "jsstring \<Rightarrow> error \<Rightarrow> bool" where
  "lexical_error src e =
     (\<exists>i. (i < length src \<longrightarrow> 32 < src ! i)
        \<and> e = Error (str ''Unexpected token '' @ [39] @ char_at_text src i @ [39]))"

text \<open>
  A token of a source text: \<open>lex\<close> returned it in some state of a lexer of that text. The
  states of the lexer of a parse of the text: the source is the text, and the stash holds
  tokens of the text.
\<close>

definition lexed_from :: "jsstring \<Rightarrow> token \<Rightarrow> bool" where
  "lexed_from src tok = (\<exists>lx lx'. source lx = src \<and> lex lx = Inr (tok, lx'))"

definition lexer_over :: "jsstring \<Rightarrow> lexer \<Rightarrow> bool" where
  "lexer_over src lx = (source lx = src \<and> (\<forall>t \<in> set (stash lx). lexed_from src t))"

text \<open>
  The nodes of a tree: the node itself and, for an array, the nodes of its elements. An
  object holds Property nodes, which keep the key token and not the value node. The
  lexeme of a leaf is its \<open>value\<close> field; a null literal, an array and an object have none.
\<close>

fun subnodes :: "node \<Rightarrow> node list" where
  "subnodes (ArrayLiteral xs s e) = ArrayLiteral xs s e # concat (map subnodes xs)"
| "subnodes (BooleanLiteral v s e) = [BooleanLiteral v s e]"
| "subnodes (StringLiteral v s e) = [StringLiteral v s e]"
| "subnodes (NullLiteral s e) = [NullLiteral s e]"
| "subnodes (NumericLiteral v s e) = [NumericLiteral v s e]"
| "subnodes (ObjectLiteral ps s e) = [ObjectLiteral ps s e]"

fun literal_value :: "node \<Rightarrow> jsstring option" where
  "literal_value (BooleanLiteral v s e) = Some v"
| "literal_value (StringLiteral v s e) = Some v"
| "literal_value (NumericLiteral v s e) = Some v"
| "literal_value (NullLiteral s e) = None"
| "literal_value (ArrayLiteral xs s e) = None"
| "literal_value (ObjectLiteral ps s e) = None"

section \<open>The tokens of a value and of an unclosed value\<close>

text \<open>
  The token lists that the parser reads as one complete value, as the elements of an array
  up to its closing bracket, and as the members of an object up to its closing brace. The
  rules follow the tests of \<open>parseValue\<close> and of the two loops: a comma is asked for after an
  element or a member only when the closing token does not follow, and the loop may end
  right after a comma.
\<close>

inductive value_tokens :: "token list \<Rightarrow> bool"
  and elements_tokens :: "token list \<Rightarrow> bool"
  and members_tokens :: "token list \<Rightarrow> bool"
where
  literal:
    "literal_node t \<noteq> None \<Longrightarrow> value_tokens [t]"
| array:
    "t_value a = str ''['' \<Longrightarrow> elements_tokens es \<Longrightarrow> t_value c = str '']'' \<Longrightarrow>
     value_tokens (a # es @ [c])"
| object:
    "t_value a = str ''{'' \<Longrightarrow> members_tokens ms \<Longrightarrow> t_value c = str ''}'' \<Longrightarrow>
     value_tokens (a # ms @ [c])"
| no_elements:
    "elements_tokens []"
| last_element:
    "value_tokens v \<Longrightarrow> elements_tokens v"
| element_comma:
    "value_tokens v \<Longrightarrow> t_value k = str '','' \<Longrightarrow> elements_tokens es \<Longrightarrow>
     elements_tokens (v @ k # es)"
| no_members:
    "members_tokens []"
| last_member:
    "t_type key \<in> {TOKEN_STRING, TOKEN_NUMBER} \<Longrightarrow> t_value colon = str '':'' \<Longrightarrow>
     value_tokens v \<Longrightarrow> members_tokens (key # colon # v)"
| member_comma:
    "t_type key \<in> {TOKEN_STRING, TOKEN_NUMBER} \<Longrightarrow> t_value colon = str '':'' \<Longrightarrow>
     value_tokens v \<Longrightarrow> t_value k = str '','' \<Longrightarrow> members_tokens ms \<Longrightarrow>
     members_tokens (key # colon # v @ k # ms)"

text \<open>
  A token that is no punctuator has a lexeme that is none of the six structural
  characters; every token of the lexer is such a token.
\<close>

definition structural :: "jsstring \<Rightarrow> bool" where
  "structural v = (v = [123] \<or> v = [125] \<or> v = [91] \<or> v = [93] \<or> v = [44] \<or> v = [58])"

definition plain_token :: "token \<Rightarrow> bool" where
  "plain_token t = (t_type t \<noteq> TOKEN_PUNCTUATOR \<longrightarrow> \<not> structural (t_value t))"

text \<open>With a bound of at least \<open>N\<close>, the parser reads the tokens and leaves the rest.\<close>

definition value_parses :: "nat \<Rightarrow> token list \<Rightarrow> bool" where
  "value_parses N v =
     (\<forall>n\<ge>N. \<forall>lx rest. lexer_all lx (v @ rest) \<longrightarrow>
        (\<exists>node lx'. parseValue n lx = Some (Inr (node, lx')) \<and> lexer_all lx' rest))"

definition elements_parse :: "nat \<Rightarrow> token list \<Rightarrow> bool" where
  "elements_parse N es =
     (\<forall>n\<ge>N. \<forall>lx c rest acc. lexer_all lx (es @ c # rest) \<longrightarrow> t_value c = str '']'' \<longrightarrow>
        (\<exists>acc' lx'. arrayLoop n acc lx = Some (Inr (acc', lx')) \<and> lexer_all lx' (c # rest)))"

definition members_parse :: "nat \<Rightarrow> token list \<Rightarrow> bool" where
  "members_parse N ms =
     (\<forall>n\<ge>N. \<forall>lx c rest acc. lexer_all lx (ms @ c # rest) \<longrightarrow> t_value c = str ''}'' \<longrightarrow>
        (\<exists>acc' lx'. objectLoop n acc lx = Some (Inr (acc', lx')) \<and> lexer_all lx' (c # rest)))"

text \<open>
  The token lists of an input that ends inside an unclosed array or object, with the
  error of the parser for each place where the input can end: where \<open>is\<close> is asked (after
  the opening token, after a comma, after a complete element or member), \<open>peek\<close> has
  returned \<open>null\<close>; after the key of a member, \<open>ensure\<close> reads \<open>undefined\<close>; after the colon
  of a member, \<open>parseValue\<close> reports the end of the input.
\<close>

inductive unclosed :: "token list \<Rightarrow> error \<Rightarrow> bool"
  and unclosed_elements :: "token list \<Rightarrow> error \<Rightarrow> bool"
  and unclosed_members :: "token list \<Rightarrow> error \<Rightarrow> bool"
where
  open_array:
    "t_value a = str ''['' \<Longrightarrow> unclosed_elements es e \<Longrightarrow> unclosed (a # es) e"
| open_object:
    "t_value a = str ''{'' \<Longrightarrow> unclosed_members ms e \<Longrightarrow> unclosed (a # ms) e"
| elements_end:
    "unclosed_elements [] TypeError_null"
| element_end:
    "value_tokens v \<Longrightarrow> unclosed_elements v TypeError_null"
| element_more:
    "value_tokens v \<Longrightarrow> t_value k = str '','' \<Longrightarrow> unclosed_elements es e \<Longrightarrow>
     unclosed_elements (v @ k # es) e"
| element_open:
    "unclosed v e \<Longrightarrow> unclosed_elements v e"
| members_end:
    "unclosed_members [] TypeError_null"
| key_end:
    "t_type key \<in> {TOKEN_STRING, TOKEN_NUMBER} \<Longrightarrow> unclosed_members [key] TypeError_undefined"
| colon_end:
    "t_type key \<in> {TOKEN_STRING, TOKEN_NUMBER} \<Longrightarrow> t_value colon = str '':'' \<Longrightarrow>
     unclosed_members [key, colon] (Error (str ''Unexpected end of input''))"
| member_end:
    "t_type key \<in> {TOKEN_STRING, TOKEN_NUMBER} \<Longrightarrow> t_value colon = str '':'' \<Longrightarrow>
     value_tokens v \<Longrightarrow> unclosed_members (key # colon # v) TypeError_null"
| member_more:
    "t_type key \<in> {TOKEN_STRING, TOKEN_NUMBER} \<Longrightarrow> t_value colon = str '':'' \<Longrightarrow>
     value_tokens v \<Longrightarrow> t_value k = str '','' \<Longrightarrow> unclosed_members ms e \<Longrightarrow>
     unclosed_members (key # colon # v @ k # ms) e"
| member_open:
    "t_type key \<in> {TOKEN_STRING, TOKEN_NUMBER} \<Longrightarrow> t_value colon = str '':'' \<Longrightarrow>
     unclosed v e \<Longrightarrow> unclosed_members (key # colon # v) e"

text \<open>With a bound of at least \<open>N\<close>, the parser raises the error on the tokens.\<close>

definition value_aborts :: "nat \<Rightarrow> token list \<Rightarrow> error \<Rightarrow> bool" where
  "value_aborts N v e =
     (\<forall>n\<ge>N. \<forall>lx. lexer_all lx v \<longrightarrow> parseValue n lx = Some (Inl e))"

definition elements_abort :: "nat \<Rightarrow> token list \<Rightarrow> error \<Rightarrow> bool" where
  "elements_abort N es e =
     (\<forall>n\<ge>N. \<forall>lx acc. lexer_all lx es \<longrightarrow> arrayLoop n acc lx = Some (Inl e))"

definition members_abort :: "nat \<Rightarrow> token list \<Rightarrow> error \<Rightarrow> bool" where
  "members_abort N ms e =
     (\<forall>n\<ge>N. \<forall>lx acc. lexer_all lx ms \<longrightarrow> objectLoop n acc lx = Some (Inl e))"

section \<open>Evaluating the lexer and the parser\<close>

text \<open>The loop of \<open>skipWhitespace\<close> steps over every code unit up to 32 and stops at the first other one.\<close>

lemma skip_loop_eq: "skip_loop src i = i + length (takeWhile (\<lambda>c. c \<le> 32) (drop i src))"
proof (induction src i rule: skip_loop.induct)
  case (1 src i)
  show ?case
  proof (cases "i < length src")
    case False
    then show ?thesis by (subst skip_loop.simps) simp
  next
    case lt: True
    then have d: "drop i src = src ! i # drop (Suc i) src"
      by (simp add: Cons_nth_drop_Suc)
    show ?thesis
    proof (cases "src ! i = 13")
      case cr: True
      show ?thesis
      proof (cases "charCodeAt src (i + 1) = Some 10")
        case True
        then have lt2: "Suc i < length src" and nl: "src ! Suc i = 10"
          by (auto simp: charCodeAt_def split: if_splits)
        then have d2: "drop (Suc i) src = 10 # drop (Suc (Suc i)) src"
          by (metis Cons_nth_drop_Suc)
        from "1.IH"(1)[OF lt cr True] lt cr True show ?thesis
          by (subst skip_loop.simps) (simp add: d d2)
      next
        case False
        from "1.IH"(2)[OF lt cr False] lt cr False show ?thesis
          by (subst skip_loop.simps) (simp add: d)
      qed
    next
      case ncr: False
      show ?thesis
      proof (cases "src ! i \<le> 32")
        case True
        from "1.IH"(3)[OF lt ncr] True lt ncr show ?thesis
          by (subst skip_loop.simps) (simp add: d)
      next
        case False
        with lt ncr show ?thesis
          by (subst skip_loop.simps) (simp add: d)
      qed
    qed
  qed
qed

lemma skipWhitespace_eq:
  "skipWhitespace lx =
     forward (length (takeWhile (\<lambda>c. c \<le> 32) (drop (index lx) (source lx)))) lx"
  by (simp add: skipWhitespace_def skip_loop_eq)

lemmas rx_defs =
  S_NUMBER_def S_FRAC_def S_EXP_def S_INT_def S_DIGITS_def S_DIGIT_def S_ONENINE_def
  Opt_def Plus_def S_STRING_def S_CHAR_def S_ESCAPE_def S_HEX_def Rep4_def S_PUNC_def
  S_BOOL_def S_NULL_def

lemmas lexer_eval =
  matches_Star str_def Lexer_def lex_def grammar_def regex_match_def rx_defs Token_def skipWhitespace_eq
  forward_def hasEnded_def peek_def lookahead_def next_token_def is_high_def is_low_def
  char_at_text_def

lemmas parser_eval =
  parse_def is_value_def ensure_def ensureType_def literal_node_def Property_def

lemmas weak_case_cong = sum.case_cong_weak option.case_cong_weak prod.case_cong_weak

lemma skipWhitespace_fields:
  "source (skipWhitespace lx) = source lx" "stash (skipWhitespace lx) = stash lx"
  "input (skipWhitespace lx) = drop (index (skipWhitespace lx)) (source lx)"
  "index (skipWhitespace lx) =
     index lx + length (takeWhile (\<lambda>c. c \<le> 32) (drop (index lx) (source lx)))"
  by (simp_all add: skipWhitespace_eq forward_def)

lemma skipped_run:
  assumes "index lx \<le> i" "i < index (skipWhitespace lx)"
  shows "source lx ! i \<le> 32"
proof -
  let ?d = "drop (index lx) (source lx)"
  let ?t = "takeWhile (\<lambda>c. c \<le> 32) ?d"
  from assms have k: "i - index lx < length ?t"
    by (simp add: skipWhitespace_fields)
  then have "?t ! (i - index lx) \<in> set ?t"
    by simp
  then have le: "?t ! (i - index lx) \<le> 32"
    using set_takeWhileD by fastforce
  have "?t ! (i - index lx) = ?d ! (i - index lx)"
    using k by (rule takeWhile_nth)
  also have "\<dots> = source lx ! i"
  proof -
    from k have "i - index lx < length ?d"
      using length_takeWhile_le[of "\<lambda>c. c \<le> 32" ?d] by linarith
    then show ?thesis using assms(1) by simp
  qed
  finally show ?thesis using le by simp
qed

lemma skip_stops:
  assumes "index (skipWhitespace lx) < length (source lx)"
  shows "32 < source lx ! index (skipWhitespace lx)"
proof -
  let ?d = "drop (index lx) (source lx)"
  let ?k = "length (takeWhile (\<lambda>c. c \<le> 32) ?d)"
  from assms have "?k < length ?d"
    by (simp add: skipWhitespace_fields)
  then have "\<not> (?d ! ?k \<le> 32)"
    by (rule nth_length_takeWhile)
  moreover have "?d ! ?k = source lx ! (index lx + ?k)"
    using assms by (simp add: skipWhitespace_fields)
  ultimately show ?thesis by (simp add: skipWhitespace_fields)
qed

lemma lex_Inr_state:
  "lex lx = Inr (tok, lx') \<Longrightarrow>
     lx' = skipWhitespace (forward (length (t_value tok)) (skipWhitespace lx))"
  by (auto simp: lex_def grammar_def Let_def split: option.splits)

section \<open>Properties of the matcher\<close>

lemma next_char_plain [simp]: "next_char False (c # s) = Some (c, s)"
  by (cases s) simp_all

lemma next_char_suffix: "next_char u s = Some (x, t) \<Longrightarrow> \<exists>p. p \<noteq> [] \<and> s = p @ t"
  by (induction u s rule: next_char.induct) (auto split: if_splits)

lemma next_char_length: "next_char u s = Some (x, t) \<Longrightarrow> length t < length s"
  using next_char_suffix by fastforce

lemma atom_result:
  "z \<in> set (case next_char u s of None \<Rightarrow> [] | Some (x, t) \<Rightarrow> if P x then [t] else [])
     \<longleftrightarrow> (\<exists>x. next_char u s = Some (x, z) \<and> P x)"
  by (cases "next_char u s") auto

lemma matches_suffix: "z \<in> set (matches u r s) \<Longrightarrow> \<exists>p. s = p @ z"
proof (induction u r s arbitrary: z rule: matches.induct)
  case (1 u s)
  then show ?case by simp
next
  case (2 u c s)
  then show ?case
    unfolding matches.simps atom_result using next_char_suffix by blast
next
  case (3 u rs s)
  then show ?case
    unfolding matches.simps atom_result using next_char_suffix by blast
next
  case (4 u rs s)
  from "4.prems" have "\<exists>x. next_char u s = Some (x, z) \<and> \<not> in_ranges x rs"
    by (cases "next_char u s") (auto split: if_splits)
  then show ?case
    using next_char_suffix by blast
next
  case (5 u a b s)
  from "5.prems" obtain y where y: "y \<in> set (matches u a s)" and z: "z \<in> set (matches u b y)"
    by auto
  from "5.IH"(1)[OF y] obtain p where "s = p @ y" by blast
  moreover from "5.IH"(2)[OF y z] obtain q where "y = q @ z" by blast
  ultimately show ?case by simp
next
  case (6 u a b s)
  then show ?case by auto
next
  case (7 u a s)
  from "7.prems" consider "z = s"
    | y where "y \<in> set (matches u a s)" "length y < length s" "z \<in> set (matches u (Star a) y)"
    by (subst (asm) matches_Star) (auto split: if_splits)
  then show ?case
  proof cases
    case 1
    then show ?thesis by simp
  next
    case 2
    from "7.IH"(1)[OF 2(1)] obtain p where "s = p @ y" by blast
    moreover from "7.IH"(2)[OF 2(1) 2(2) 2(3)] obtain q where "y = q @ z" by blast
    ultimately show ?thesis by simp
  qed
qed

lemma matches_length: "z \<in> set (matches u r s) \<Longrightarrow> length z \<le> length s"
  using matches_suffix by fastforce

lemma regex_match_Some_iff:
  "regex_match u r s = Some p \<longleftrightarrow> (\<exists>z zs. matches u r s = z # zs \<and> s = p @ z)"
proof
  assume "regex_match u r s = Some p"
  then obtain z zs where m: "matches u r s = z # zs" and p: "p = take (length s - length z) s"
    by (auto simp: regex_match_def split: list.splits)
  from m have "z \<in> set (matches u r s)" by simp
  then obtain q where "s = q @ z" using matches_suffix by blast
  with p m show "\<exists>z zs. matches u r s = z # zs \<and> s = p @ z" by simp
next
  assume "\<exists>z zs. matches u r s = z # zs \<and> s = p @ z"
  then show "regex_match u r s = Some p"
    by (auto simp: regex_match_def)
qed

lemma regex_match_None_iff: "regex_match u r s = None \<longleftrightarrow> matches u r s = []"
  by (simp add: regex_match_def split: list.splits)

lemma uncut_suffix: "uncut u (p @ z) \<Longrightarrow> uncut u z"
  by (auto simp: uncut_def)

lemma next_char_append:
  assumes "uncut u (c # s)"
  shows "next_char u (c # s @ t) = map_option (\<lambda>(x, y). (x, y @ t)) (next_char u (c # s))"
proof (cases s)
  case Nil
  with assms show ?thesis
    by (cases t) (auto simp: uncut_def)
next
  case (Cons d s')
  then show ?thesis by simp
qed

lemma atom_append:
  assumes "uncut u s"
  shows "filter (\<lambda>x. length t \<le> length x)
           (case next_char u (s @ t) of None \<Rightarrow> [] | Some (x, y) \<Rightarrow> if P x then [y] else [])
         = map (\<lambda>x. x @ t)
           (case next_char u s of None \<Rightarrow> [] | Some (x, y) \<Rightarrow> if P x then [y] else [])"
proof (cases s)
  case Nil
  then show ?thesis
    by (auto split: option.splits dest!: next_char_length)
next
  case (Cons d s')
  with assms show ?thesis
    by (cases "next_char u (d # s')") (auto simp: next_char_append)
qed

lemma filter_concat_map:
  assumes "filter Q xs = map g ys"
    and "\<And>x. x \<in> set xs \<Longrightarrow> \<not> Q x \<Longrightarrow> filter P (f x) = []"
    and "\<And>y. y \<in> set ys \<Longrightarrow> filter P (f (g y)) = map g (f' y)"
  shows "filter P (concat (map f xs)) = map g (concat (map f' ys))"
  using assms
proof (induction xs arbitrary: ys)
  case Nil
  then show ?case by simp
next
  case (Cons x xs)
  show ?case
  proof (cases "Q x")
    case True
    with Cons.prems(1) obtain y ys' where ys: "ys = y # ys'" and x: "x = g y"
      and r: "filter Q xs = map g ys'"
      by (cases ys) auto
    have "filter P (concat (map f xs)) = map g (concat (map f' ys'))"
      using r Cons.prems(2,3) ys by (intro Cons.IH) auto
    moreover have "filter P (f x) = map g (f' y)"
      using Cons.prems(3)[of y] ys x by simp
    ultimately show ?thesis using ys by simp
  next
    case False
    with Cons.prems(1) have r: "filter Q xs = map g ys" by simp
    have "filter P (concat (map f xs)) = map g (concat (map f' ys))"
      using r Cons.prems(2,3) by (intro Cons.IH) auto
    moreover have "filter P (f x) = []"
      using Cons.prems(2)[of x] False by simp
    ultimately show ?thesis by simp
  qed
qed

lemma filter_short_empty:
  assumes "length y < length t"
  shows "filter (\<lambda>x. length t \<le> length x) (matches u r y) = []"
proof -
  have "\<forall>z \<in> set (matches u r y). \<not> length t \<le> length z"
    using matches_length[of _ u r y] assms by fastforce
  then show ?thesis by (simp add: filter_empty_conv)
qed

lemma matches_append:
  "uncut u s \<Longrightarrow>
   filter (\<lambda>x. length t \<le> length x) (matches u r (s @ t)) = map (\<lambda>x. x @ t) (matches u r s)"
proof (induction u r s rule: matches.induct)
  case (1 u s)
  then show ?case by simp
next
  case (2 u c s)
  then show ?case
    using atom_append[of u s t "\<lambda>x. x = c"] by simp
next
  case (3 u rs s)
  then show ?case
    using atom_append[of u s t "\<lambda>x. in_ranges x rs"] by simp
next
  case (4 u rs s)
  have e: "\<And>s. (case next_char u s of None \<Rightarrow> [] | Some (x, y) \<Rightarrow> if in_ranges x rs then [] else [y])
        = (case next_char u s of None \<Rightarrow> [] | Some (x, y) \<Rightarrow> if \<not> in_ranges x rs then [y] else [])"
    by (auto split: option.splits)
  from 4 show ?case
    using atom_append[of u s t "\<lambda>x. \<not> in_ranges x rs"] by (simp add: e)
next
  case (5 u a b s)
  let ?P = "\<lambda>x. length t \<le> length x"
  have a: "filter ?P (matches u a (s @ t)) = map (\<lambda>x. x @ t) (matches u a s)"
    using "5.IH"(1) "5.prems" by simp
  have short: "\<And>x. x \<in> set (matches u a (s @ t)) \<Longrightarrow> \<not> ?P x \<Longrightarrow> filter ?P (matches u b x) = []"
    by (auto intro!: filter_short_empty simp: not_le)
  have b: "\<And>y. y \<in> set (matches u a s) \<Longrightarrow>
             filter ?P (matches u b (y @ t)) = map (\<lambda>x. x @ t) (matches u b y)"
  proof -
    fix y assume y: "y \<in> set (matches u a s)"
    then obtain p where "s = p @ y" using matches_suffix by blast
    with "5.prems" have "uncut u y" using uncut_suffix by blast
    with "5.IH"(2)[OF y] show "filter ?P (matches u b (y @ t)) = map (\<lambda>x. x @ t) (matches u b y)"
      by simp
  qed
  show ?case
    using filter_concat_map[of ?P "matches u a (s @ t)" "\<lambda>x. x @ t" "matches u a s" ?P
        "matches u b" "matches u b", OF a short b]
    by simp
next
  case (6 u a b s)
  then show ?case by simp
next
  case (7 u a s)
  let ?P = "\<lambda>x. length t \<le> length x"
  let ?f = "\<lambda>n y. if length y < n then matches u (Star a) y else []"
  have a: "filter ?P (matches u a (s @ t)) = map (\<lambda>x. x @ t) (matches u a s)"
    using "7.IH"(1) "7.prems" by simp
  have short: "\<And>x. x \<in> set (matches u a (s @ t)) \<Longrightarrow> \<not> ?P x
                 \<Longrightarrow> filter ?P (?f (length (s @ t)) x) = []"
    by (auto intro!: filter_short_empty simp: not_le)
  have b: "\<And>y. y \<in> set (matches u a s) \<Longrightarrow>
             filter ?P (?f (length (s @ t)) (y @ t)) = map (\<lambda>x. x @ t) (?f (length s) y)"
  proof -
    fix y assume y: "y \<in> set (matches u a s)"
    then obtain p where "s = p @ y" using matches_suffix by blast
    with "7.prems" have "uncut u y" using uncut_suffix by blast
    with "7.IH"(2)[OF y]
    show "filter ?P (?f (length (s @ t)) (y @ t)) = map (\<lambda>x. x @ t) (?f (length s) y)"
      by simp
  qed
  have "filter ?P (concat (map (?f (length (s @ t))) (matches u a (s @ t))))
          = map (\<lambda>x. x @ t) (concat (map (?f (length s)) (matches u a s)))"
    by (rule filter_concat_map[of ?P "matches u a (s @ t)" "\<lambda>x. x @ t" "matches u a s" ?P
          "?f (length (s @ t))" "?f (length s)", OF a short b])
  then show ?case
    by (subst matches_Star[of u a "s @ t"], subst matches_Star[of u a s]) simp
qed

lemma regex_match_cut:
  assumes "regex_match u r s = Some p" and "uncut u p"
  shows "regex_match u r p = Some p"
proof -
  from assms(1) obtain z zs where m: "matches u r s = z # zs" and s: "s = p @ z"
    by (auto simp: regex_match_Some_iff)
  let ?P = "\<lambda>x. length z \<le> length x"
  from matches_append[OF assms(2), of z r] s m
  have "z # filter ?P zs = map (\<lambda>x. x @ z) (matches u r p)"
    by simp
  then obtain y ys where "matches u r p = y # ys" and "y @ z = z"
    by (cases "matches u r p") auto
  then show ?thesis by (simp add: regex_match_def)
qed

subsection \<open>The number pattern\<close>

lemma matches_Cls_plain [simp]:
  "matches False (Cls rs) (c # s) = (if in_ranges c rs then [s] else [])"
  "matches False (Cls rs) [] = []"
  "matches False (Chr x) (c # s) = (if c = x then [s] else [])"
  "matches False (Chr x) [] = []"
  by simp_all

lemma matches_Opt: "matches u (Opt a) s = matches u a s @ [s]"
  by (simp add: Opt_def)

lemma matches_Seq_head:
  "matches u a s = y # ys \<Longrightarrow> matches u b y = z # zs
     \<Longrightarrow> \<exists>ws. matches u (Seq a b) s = z # ws"
  by simp

lemma in_Seq:
  "z \<in> set (matches u (Seq a b) s) \<longleftrightarrow> (\<exists>y \<in> set (matches u a s). z \<in> set (matches u b y))"
  by auto

lemma in_Star:
  "z \<in> set (matches u (Star a) s) \<longleftrightarrow>
     z = s \<or> (\<exists>y \<in> set (matches u a s). length y < length s \<and> z \<in> set (matches u (Star a) y))"
  by (subst matches_Star) (auto split: if_splits)

lemma star_digits_head:
  assumes "list_all is_digit ds" and "t = [] \<or> \<not> is_digit (hd t)"
  shows "\<exists>zs. matches False (Star (Cls [(48, 57)])) (ds @ t) = t # zs"
  using assms
proof (induction ds)
  case Nil
  then show ?case
    by (subst matches_Star) (cases t; auto simp: is_digit_def)
next
  case (Cons d ds)
  then obtain zs where "matches False (Star (Cls [(48, 57)])) (ds @ t) = t # zs"
    by auto
  with Cons.prems show ?case
    by (subst matches_Star) (simp add: is_digit_def)
qed

lemma plus_digits_head:
  assumes "spec_digits ds" and "t = [] \<or> \<not> is_digit (hd t)"
  shows "\<exists>zs. matches False S_DIGITS (ds @ t) = t # zs"
proof -
  from assms(1) obtain d ds' where ds: "ds = d # ds'" and d: "is_digit d" and r: "list_all is_digit ds'"
    by (cases ds) (auto simp: spec_digits_def)
  from star_digits_head[OF r assms(2)] obtain zs
    where "matches False (Star (Cls [(48, 57)])) (ds' @ t) = t # zs" by blast
  with ds d show ?thesis
    by (simp add: S_DIGITS_def Plus_def is_digit_def)
qed

lemma plus_digits_fail:
  assumes "t = [] \<or> \<not> is_digit (hd t)"
  shows "matches False S_DIGITS t = []"
  using assms by (cases t) (auto simp: S_DIGITS_def Plus_def is_digit_def)

lemma in_star_digits:
  "z \<in> set (matches False (Star (Cls [(48, 57)])) s) \<Longrightarrow> \<exists>ds. s = ds @ z \<and> list_all is_digit ds"
proof (induction s arbitrary: z)
  case Nil
  then show ?case by (subst (asm) matches_Star) simp
next
  case (Cons c s)
  from Cons.prems show ?case
  proof (subst (asm) in_Star, elim disjE bexE conjE)
    assume "z = c # s"
    then show ?thesis by (intro exI[of _ "[]"]) simp
  next
    fix y assume y: "y \<in> set (matches False (Cls [(48, 57)]) (c # s))"
      and z: "z \<in> set (matches False (Star (Cls [(48, 57)])) y)"
    from y have c: "is_digit c" and ys: "y = s"
      by (auto simp: is_digit_def split: if_splits)
    from Cons.IH[of z] z ys obtain ds where "s = ds @ z" "list_all is_digit ds" by blast
    with c show ?thesis by (intro exI[of _ "c # ds"]) simp
  qed
qed

lemma in_plus_digits:
  assumes "z \<in> set (matches False S_DIGITS s)"
  shows "\<exists>ds. s = ds @ z \<and> spec_digits ds"
proof -
  from assms obtain y where y: "y \<in> set (matches False (Cls [(48, 57)]) s)"
    and z: "z \<in> set (matches False (Star (Cls [(48, 57)])) y)"
    by (auto simp: S_DIGITS_def Plus_def)
  from y obtain c where s: "s = c # y" and c: "is_digit c"
    by (cases s) (auto simp: is_digit_def split: if_splits)
  from in_star_digits[OF z] obtain ds where "y = ds @ z" "list_all is_digit ds" by blast
  with s c show ?thesis
    by (intro exI[of _ "c # ds"]) (simp add: spec_digits_def)
qed

lemma exp_head:
  assumes "spec_exponent e" and "t = [] \<or> \<not> is_digit (hd t)"
  shows "\<exists>zs. matches False S_EXP (e @ t) = t # zs"
proof -
  from assms(1) obtain x sg ds where e: "e = x # sg # ds" and x: "x = 101 \<or> x = 69"
    and sg: "sg = 43 \<or> sg = 45" and ds: "spec_digits ds"
    by (auto simp: spec_exponent_def)
  from plus_digits_head[OF ds assms(2)] obtain zs where "matches False S_DIGITS (ds @ t) = t # zs"
    by blast
  with e x sg show ?thesis
    by (auto simp: S_EXP_def)
qed

lemma in_exp:
  assumes "z \<in> set (matches False S_EXP s)"
  shows "\<exists>e. s = e @ z \<and> spec_exponent e"
proof -
  from assms obtain y1 y2 where 1: "y1 \<in> set (matches False (Cls [(101, 101), (69, 69)]) s)"
    and 2: "y2 \<in> set (matches False (Cls [(43, 43), (45, 45)]) y1)"
    and 3: "z \<in> set (matches False S_DIGITS y2)"
    unfolding S_EXP_def in_Seq by blast
  from 1 obtain x where s: "s = x # y1" and x: "x = 101 \<or> x = 69"
    by (cases s) (auto split: if_splits)
  from 2 obtain sg where y1: "y1 = sg # y2" and sg: "sg = 43 \<or> sg = 45"
    by (cases y1) (auto split: if_splits)
  from in_plus_digits[OF 3] obtain ds where "y2 = ds @ z" "spec_digits ds" by blast
  with s x y1 sg show ?thesis
    by (intro exI[of _ "x # sg # ds"]) (auto simp: spec_exponent_def)
qed

lemma frac_head:
  assumes "spec_fraction f" and "t = [] \<or> \<not> is_digit (hd t)"
  shows "\<exists>zs. matches False S_FRAC (f @ t) = t # zs"
proof -
  from assms(1) obtain ds where f: "f = 46 # ds" and ds: "spec_digits ds"
    by (auto simp: spec_fraction_def)
  from plus_digits_head[OF ds assms(2)] obtain zs where "matches False S_DIGITS (ds @ t) = t # zs"
    by blast
  with f show ?thesis by (auto simp: S_FRAC_def)
qed

lemma frac_fail:
  assumes "s = [] \<or> hd s \<noteq> 46"
  shows "matches False S_FRAC s = []"
  using assms by (cases s) (auto simp: S_FRAC_def)

lemma in_frac:
  assumes "z \<in> set (matches False S_FRAC s)"
  shows "\<exists>f. s = f @ z \<and> spec_fraction f"
proof -
  from assms obtain y where 1: "y \<in> set (matches False (Chr 46) s)"
    and 2: "z \<in> set (matches False S_DIGITS y)"
    unfolding S_FRAC_def in_Seq by blast
  from 1 have s: "s = 46 # y"
    by (cases s) (auto split: if_splits)
  from in_plus_digits[OF 2] obtain ds where "y = ds @ z" "spec_digits ds" by blast
  with s show ?thesis
    by (intro exI[of _ "46 # ds"]) (auto simp: spec_fraction_def)
qed

lemma spec_integerI:
  "i = sign @ body \<Longrightarrow> sign = [] \<or> sign = [45] \<Longrightarrow>
   (\<exists>d. body = [d] \<and> is_digit d)
     \<or> (\<exists>d ds. body = d # ds \<and> 49 \<le> d \<and> d \<le> 57 \<and> spec_digits ds)
   \<Longrightarrow> spec_integer i"
  unfolding spec_integer_def by blast

lemma spec_numberI1:
  "spec_fraction f \<Longrightarrow> e = [] \<or> spec_exponent e \<Longrightarrow> spec_number (f @ e)"
  unfolding spec_number_def by blast

lemma spec_numberI2:
  "spec_integer i \<Longrightarrow> f = [] \<or> spec_fraction f \<Longrightarrow> e = [] \<or> spec_exponent e
     \<Longrightarrow> spec_number (i @ f @ e)"
  unfolding spec_number_def by blast

lemma int_head:
  assumes "spec_integer i" and "t = [] \<or> \<not> is_digit (hd t)"
  shows "\<exists>zs. matches False S_INT (i @ t) = t # zs"
proof -
  from assms(1) obtain sign body where i: "i = sign @ body" and sign: "sign = [] \<or> sign = [45]"
    and body: "(\<exists>d. body = [d] \<and> is_digit d)
         \<or> (\<exists>d ds. body = d # ds \<and> 49 \<le> d \<and> d \<le> 57 \<and> spec_digits ds)"
    unfolding spec_integer_def by blast
  let ?A = "Alt (Seq S_ONENINE S_DIGITS) S_DIGIT"
  have b: "\<exists>zs. matches False ?A (body @ t) = t # zs"
    using body
  proof (elim disjE exE conjE)
    fix d assume "body = [d]" "is_digit d"
    then show ?thesis
      using plus_digits_fail[OF assms(2)]
      by (auto simp: S_ONENINE_def S_DIGIT_def is_digit_def)
  next
    fix d ds assume "body = d # ds" "49 \<le> d" "d \<le> 57" "spec_digits ds"
    then show ?thesis
      using plus_digits_head[OF _ assms(2), of ds]
      by (auto simp: S_ONENINE_def)
  qed
  from body have h: "body \<noteq> [] \<and> hd body \<noteq> 45"
    by (auto simp: is_digit_def)
  have o: "\<exists>ys. matches False (Opt (Chr 45)) (i @ t) = (body @ t) # ys"
    using sign i h by (cases body) (auto simp: matches_Opt)
  from o b show ?thesis
    unfolding S_INT_def using matches_Seq_head by blast
qed

lemma in_int:
  assumes "z \<in> set (matches False S_INT s)"
  shows "\<exists>i. s = i @ z \<and> spec_integer i"
proof -
  from assms obtain y where 1: "y \<in> set (matches False (Opt (Chr 45)) s)"
    and 2: "z \<in> set (matches False (Alt (Seq S_ONENINE S_DIGITS) S_DIGIT) y)"
    unfolding S_INT_def in_Seq by blast
  from 1 obtain sign where s: "s = sign @ y" and sign: "sign = [] \<or> sign = [45]"
    by (cases s) (auto simp: matches_Opt split: if_splits)
  from 2 consider y1 where "y1 \<in> set (matches False S_ONENINE y)" "z \<in> set (matches False S_DIGITS y1)"
    | "z \<in> set (matches False S_DIGIT y)"
    by auto
  then have "\<exists>body. y = body @ z \<and> ((\<exists>d. body = [d] \<and> is_digit d)
         \<or> (\<exists>d ds. body = d # ds \<and> 49 \<le> d \<and> d \<le> 57 \<and> spec_digits ds))"
  proof cases
    case 1
    from 1(1) obtain d where y: "y = d # y1" and d: "49 \<le> d" "d \<le> 57"
      by (cases y) (auto simp: S_ONENINE_def split: if_splits)
    from in_plus_digits[OF 1(2)] obtain ds where "y1 = ds @ z" "spec_digits ds" by blast
    with y d show ?thesis by (intro exI[of _ "d # ds"]) simp
  next
    case 2
    then obtain d where "y = d # z" "is_digit d"
      by (cases y) (auto simp: S_DIGIT_def is_digit_def split: if_splits)
    then show ?thesis by (intro exI[of _ "[d]"]) simp
  qed
  then obtain body where y: "y = body @ z" and b: "(\<exists>d. body = [d] \<and> is_digit d)
         \<or> (\<exists>d ds. body = d # ds \<and> 49 \<le> d \<and> d \<le> 57 \<and> spec_digits ds)"
    by blast
  have "spec_integer (sign @ body)"
    using sign b by (intro spec_integerI[of _ sign body]) simp_all
  with s y show ?thesis
    by (intro exI[of _ "sign @ body"]) simp
qed

lemma spec_exponent_hd: "spec_exponent e \<Longrightarrow> e \<noteq> [] \<and> \<not> is_digit (hd e) \<and> hd e \<noteq> 46"
  by (auto simp: spec_exponent_def is_digit_def)

lemma spec_fraction_hd: "spec_fraction f \<Longrightarrow> f \<noteq> [] \<and> \<not> is_digit (hd f) \<and> hd f = 46"
  by (auto simp: spec_fraction_def is_digit_def)

lemma spec_integer_hd: "spec_integer i \<Longrightarrow> i \<noteq> [] \<and> hd i \<noteq> 46 \<and> (is_digit (hd i) \<or> hd i = 45)"
  by (auto simp: spec_integer_def is_digit_def)

lemma opt_exp_head:
  assumes "e = [] \<or> spec_exponent e" and "t = [] \<or> \<not> is_digit (hd t) \<and> hd t \<noteq> 101 \<and> hd t \<noteq> 69"
  shows "\<exists>zs. matches False (Opt S_EXP) (e @ t) = t # zs"
proof (cases "e = []")
  case True
  have "matches False S_EXP t = []"
    using assms(2) by (cases t) (auto simp: S_EXP_def)
  with True show ?thesis by (simp add: matches_Opt)
next
  case False
  with assms have "\<exists>zs. matches False S_EXP (e @ t) = t # zs"
    by (intro exp_head) auto
  then show ?thesis by (auto simp: matches_Opt)
qed

lemma opt_frac_head:
  assumes "f = [] \<or> spec_fraction f" and "t = [] \<or> \<not> is_digit (hd t) \<and> hd t \<noteq> 46"
  shows "\<exists>zs. matches False (Opt S_FRAC) (f @ t) = t # zs"
proof (cases "f = []")
  case True
  from assms(2) have "matches False S_FRAC t = []"
    by (intro frac_fail) auto
  with True show ?thesis by (simp add: matches_Opt)
next
  case False
  with assms have "\<exists>zs. matches False S_FRAC (f @ t) = t # zs"
    by (intro frac_head) auto
  then show ?thesis by (auto simp: matches_Opt)
qed

lemma number_head:
  assumes "spec_number p" and "ends_number t"
  shows "\<exists>zs. matches False S_NUMBER (p @ t) = t # zs"
proof -
  from assms(1) consider
      (frac) f e where "p = f @ e" "spec_fraction f" "e = [] \<or> spec_exponent e"
    | (int) i f e where "p = i @ f @ e" "spec_integer i" "f = [] \<or> spec_fraction f"
        "e = [] \<or> spec_exponent e"
    unfolding spec_number_def by blast
  then show ?thesis
  proof cases
  case frac
  note p = frac(1) and f = frac(2) and e = frac(3)
  have et: "e @ t = [] \<or> \<not> is_digit (hd (e @ t))"
  proof (cases "e = []")
    case True
    with assms(2) show ?thesis by (auto simp: ends_number_def)
  next
    case False
    with e spec_exponent_hd[of e] show ?thesis by simp
  qed
  from frac_head[OF f et] obtain ys where 1: "matches False S_FRAC (f @ e @ t) = (e @ t) # ys"
    by blast
  from opt_exp_head[OF e, of t] assms(2) obtain zs where 2: "matches False (Opt S_EXP) (e @ t) = t # zs"
    by (auto simp: ends_number_def)
  from matches_Seq_head[OF 1 2] p show ?thesis
    by (auto simp: S_NUMBER_def)
next
  case int
  note p = int(1) and i = int(2) and f = int(3) and e = int(4)
  have et: "e @ t = [] \<or> \<not> is_digit (hd (e @ t)) \<and> hd (e @ t) \<noteq> 46"
  proof (cases "e = []")
    case True
    with assms(2) show ?thesis by (auto simp: ends_number_def)
  next
    case False
    with e spec_exponent_hd[of e] show ?thesis by simp
  qed
  have fet: "f @ e @ t = [] \<or> \<not> is_digit (hd (f @ e @ t))"
  proof (cases "f = []")
    case True
    with et show ?thesis by auto
  next
    case False
    with f spec_fraction_hd[of f] show ?thesis by (simp add: is_digit_def)
  qed
  from int_head[OF i fet] obtain xs where 0: "matches False S_INT (i @ f @ e @ t) = (f @ e @ t) # xs"
    by blast
  from opt_frac_head[OF f et] obtain ys where 1: "matches False (Opt S_FRAC) (f @ e @ t) = (e @ t) # ys"
    by blast
  from opt_exp_head[OF e, of t] assms(2) obtain zs where 2: "matches False (Opt S_EXP) (e @ t) = t # zs"
    by (auto simp: ends_number_def)
  from matches_Seq_head[OF 1 2] obtain ws
    where 3: "matches False (Seq (Opt S_FRAC) (Opt S_EXP)) (f @ e @ t) = t # ws" by blast
  from matches_Seq_head[OF 0 3] obtain vs
    where 4: "matches False (Seq S_INT (Seq (Opt S_FRAC) (Opt S_EXP))) (i @ f @ e @ t) = t # vs"
    by blast
  have "matches False S_FRAC (i @ f @ e @ t) = []"
    using spec_integer_hd[OF i] by (intro frac_fail) (cases i; simp)
  then have 5: "matches False (Seq S_FRAC (Opt S_EXP)) (i @ f @ e @ t) = []"
    by simp
  have "matches False S_NUMBER ((i @ f @ e) @ t) = [] @ (t # vs)"
    unfolding S_NUMBER_def matches.simps(6) append_assoc 4 5 ..
  with p show ?thesis
    by simp
  qed
qed

lemma in_number:
  assumes "z \<in> set (matches False S_NUMBER s)"
  shows "\<exists>p. s = p @ z \<and> spec_number p"
proof -
  have oe: "\<And>z y. z \<in> set (matches False (Opt S_EXP) y) \<Longrightarrow> \<exists>e. y = e @ z \<and> (e = [] \<or> spec_exponent e)"
    using in_exp by (fastforce simp: matches_Opt)
  have of: "\<And>z y. z \<in> set (matches False (Opt S_FRAC) y) \<Longrightarrow> \<exists>f. y = f @ z \<and> (f = [] \<or> spec_fraction f)"
    using in_frac by (fastforce simp: matches_Opt)
  from assms consider
      y where "y \<in> set (matches False S_FRAC s)" "z \<in> set (matches False (Opt S_EXP) y)"
    | y1 y2 where "y1 \<in> set (matches False S_INT s)" "y2 \<in> set (matches False (Opt S_FRAC) y1)"
        "z \<in> set (matches False (Opt S_EXP) y2)"
    unfolding S_NUMBER_def by auto
  then show ?thesis
  proof cases
    case 1
    from in_frac[OF 1(1)] obtain f where "s = f @ y" "spec_fraction f" by blast
    moreover from oe[OF 1(2)] obtain e where "y = e @ z" "e = [] \<or> spec_exponent e" by blast
    ultimately show ?thesis
      using spec_numberI1[of f e] by (intro exI[of _ "f @ e"]) simp
  next
    case 2
    from in_int[OF 2(1)] obtain i where "s = i @ y1" "spec_integer i" by blast
    moreover from of[OF 2(2)] obtain f where "y1 = f @ y2" "f = [] \<or> spec_fraction f" by blast
    moreover from oe[OF 2(3)] obtain e where "y2 = e @ z" "e = [] \<or> spec_exponent e" by blast
    ultimately show ?thesis
      using spec_numberI2[of i f e] by (intro exI[of _ "i @ f @ e"]) simp
  qed
qed

lemma digits_no_e: "list_all is_digit ds \<Longrightarrow> c \<in> set ds \<Longrightarrow> c \<noteq> 101 \<and> c \<noteq> 69 \<and> c \<noteq> 43 \<and> c \<noteq> 45"
  by (auto simp: list_all_iff is_digit_def)

lemma spec_digits_no_e: "spec_digits ds \<Longrightarrow> c \<in> set ds \<Longrightarrow> c \<noteq> 101 \<and> c \<noteq> 69"
  using digits_no_e[of ds c] by (simp add: spec_digits_def)

lemma spec_integer_no_e:
  assumes "spec_integer i" and "c \<in> set i"
  shows "c \<noteq> 101 \<and> c \<noteq> 69"
proof -
  from assms(1) obtain sign body where i: "i = sign @ body" and sign: "sign = [] \<or> sign = [45]"
    and body: "(\<exists>d. body = [d] \<and> is_digit d)
         \<or> (\<exists>d ds. body = d # ds \<and> 49 \<le> d \<and> d \<le> 57 \<and> spec_digits ds)"
    unfolding spec_integer_def by blast
  from assms(2) i sign consider "c = 45" | "c \<in> set body" by auto
  then show ?thesis
  proof cases
    case 1
    then show ?thesis by simp
  next
    case 2
    with body spec_digits_no_e[of _ c] show ?thesis
      by (fastforce simp: is_digit_def)
  qed
qed

lemma spec_fraction_no_e:
  assumes "spec_fraction f" and "c \<in> set f"
  shows "c \<noteq> 101 \<and> c \<noteq> 69"
proof -
  from assms(1) obtain ds where "f = 46 # ds" "spec_digits ds"
    unfolding spec_fraction_def by blast
  with assms(2) spec_digits_no_e[of ds c] show ?thesis by auto
qed

lemma e_sign_append:
  assumes pre: "\<forall>c\<in>set pre. c \<noteq> 101 \<and> c \<noteq> 69"
    and ex: "ex = [] \<or> spec_exponent ex"
    and i: "i < length (pre @ ex)"
    and e: "(pre @ ex) ! i = 101 \<or> (pre @ ex) ! i = 69"
  shows "Suc i < length (pre @ ex) \<and> ((pre @ ex) ! Suc i = 43 \<or> (pre @ ex) ! Suc i = 45)"
proof (cases "i < length pre")
  case True
  then have "(pre @ ex) ! i \<in> set pre" by (simp add: nth_append)
  with pre e show ?thesis by auto
next
  case False
  with i ex obtain x sg ds where exd: "ex = x # sg # ds" and sg: "sg = 43 \<or> sg = 45"
    and ds: "list_all is_digit ds"
    by (auto simp: spec_exponent_def spec_digits_def)
  define j where "j = i - length pre"
  from False have ij: "i = length pre + j" by (simp add: j_def)
  from i ij exd have jl: "j < Suc (Suc (length ds))" by simp
  from e ij have ej: "ex ! j = 101 \<or> ex ! j = 69" by (simp add: nth_append)
  have "j = 0"
  proof (rule ccontr)
    assume "j \<noteq> 0"
    then obtain k where k: "j = Suc k" by (cases j) auto
    show False
    proof (cases k)
      case 0
      with k ej exd sg show False by auto
    next
      case (Suc m)
      with k jl have "m < length ds" by simp
      then have "ds ! m \<in> set ds" by simp
      with digits_no_e[OF ds] Suc k ej exd show False by auto
    qed
  qed
  with ij exd sg show ?thesis by (simp add: nth_append)
qed

lemma number_e_sign:
  assumes "spec_number q" and "i < length q" and "q ! i = 101 \<or> q ! i = 69"
  shows "Suc i < length q \<and> (q ! Suc i = 43 \<or> q ! Suc i = 45)"
proof -
  from assms(1) consider
      (frac) f e where "q = f @ e" "spec_fraction f" "e = [] \<or> spec_exponent e"
    | (int) i f e where "q = i @ f @ e" "spec_integer i" "f = [] \<or> spec_fraction f"
        "e = [] \<or> spec_exponent e"
    unfolding spec_number_def by blast
  then show ?thesis
  proof cases
    case frac
    have "\<forall>c\<in>set f. c \<noteq> 101 \<and> c \<noteq> 69"
      using spec_fraction_no_e[OF frac(2)] by blast
    from e_sign_append[OF this frac(3)] assms(2,3) frac(1) show ?thesis by blast
  next
    case (int n f e)
    have "\<forall>c\<in>set (n @ f). c \<noteq> 101 \<and> c \<noteq> 69"
      using spec_integer_no_e[OF int(2)] spec_fraction_no_e[of f] int(3) by auto
    from e_sign_append[OF this int(4), of i] assms(2,3) int(1) show ?thesis by simp
  qed
qed

lemma regex_match_number:
  assumes "regex_match False S_NUMBER s = Some q"
  shows "spec_number q"
proof -
  from assms obtain z zs where m: "matches False S_NUMBER s = z # zs" and s: "s = q @ z"
    by (auto simp: regex_match_Some_iff)
  from m have "z \<in> set (matches False S_NUMBER s)" by simp
  from in_number[OF this] obtain p where "s = p @ z" "spec_number p" by blast
  with s show ?thesis by simp
qed

lemma regex_match_number_whole:
  assumes "spec_number p" and "ends_number t"
  shows "regex_match False S_NUMBER (p @ t) = Some p"
  using number_head[OF assms] by (auto simp: regex_match_def)

lemma next_char_not_high: "\<not> is_high c \<Longrightarrow> next_char u (c # s) = Some (c, s)"
  by (cases s) auto

lemma string_needs_quote:
  assumes "s = [] \<or> hd s \<noteq> 34 \<and> \<not> is_high (hd s)"
  shows "regex_match True S_STRING s = None"
  using assms by (cases s) (auto simp: regex_match_def S_STRING_def next_char_not_high)

lemma spec_number_hd:
  "spec_number p \<Longrightarrow> p \<noteq> [] \<and> (is_digit (hd p) \<or> hd p = 45 \<or> hd p = 46)"
proof -
  assume "spec_number p"
  then consider
      (frac) f e where "p = f @ e" "spec_fraction f"
    | (int) i f e where "p = i @ f @ e" "spec_integer i"
    unfolding spec_number_def by blast
  then show ?thesis
  proof cases
    case frac
    with spec_fraction_hd[of f] show ?thesis by simp
  next
    case int
    with spec_integer_hd[of i] show ?thesis by auto
  qed
qed

lemma lex_number_alone:
  assumes "spec_number p"
  shows "lex (Lexer p)
       = Inr (Token TOKEN_NUMBER p 0, \<lparr>index = length p, source = p, input = [], stash = []\<rparr>)"
proof -
  from spec_number_hd[OF assms] obtain c r where p: "p = c # r"
    and c: "is_digit c \<or> c = 45 \<or> c = 46"
    by (cases p) auto
  from c have c32: "\<not> c \<le> 32" and nh: "\<not> is_high c" and nq: "c \<noteq> 34"
    by (auto simp: is_digit_def is_high_def)
  have sk: "skipWhitespace (Lexer p) = Lexer p"
    using p c32 by (simp add: skipWhitespace_eq Lexer_def forward_def)
  have st: "regex_match True S_STRING p = None"
    using p nh nq by (intro string_needs_quote) simp
  have nu: "regex_match False S_NUMBER p = Some p"
    using regex_match_number_whole[OF assms, of "[]"] by (simp add: ends_number_def)
  show ?thesis
    unfolding lex_def sk grammar_def
    by (simp add: Lexer_def st nu Token_def skipWhitespace_eq forward_def)
qed

lemma signed_exponent_numeral_number: "signed_exponent_numeral p \<Longrightarrow> spec_number p"
  unfolding signed_exponent_numeral_def spec_number_def by blast

subsection \<open>The string pattern\<close>

lemma next_char_small:
  assumes "next_char u s = Some (x, t)" and "x < 55296"
  shows "s = x # t"
  using assms by (induction u s rule: next_char.induct) (auto split: if_splits)

lemma next_char_cases:
  assumes "next_char u s = Some (x, t)"
  shows "s = x # t \<or> (\<exists>c d. s = c # d # t \<and> is_high c \<and> is_low d \<and> 65536 \<le> x)"
  using assms by (induction u s rule: next_char.induct) (auto split: if_splits)

lemma next_char_hd:
  "next_char u (c # s) = Some (x, t) \<Longrightarrow> x = c \<or> 65536 \<le> x"
  using next_char_cases by fastforce

lemma next_char_Some: "\<exists>x t. next_char u (c # s) = Some (x, t)"
  by (cases s) auto

lemma is_hex_not_high: "is_hex h \<Longrightarrow> \<not> is_high h"
  by (auto simp: is_hex_def is_high_def)

lemma matches_hex:
  "is_hex h \<Longrightarrow> matches True S_HEX (h # z) = [z]"
  by (auto simp: S_HEX_def next_char_not_high is_hex_not_high is_hex_def)

lemma matches_escape:
  assumes "spec_escape e"
  shows "matches True S_CHAR (e @ z) = [z]"
proof -
  have nh: "\<not> is_high 92" "\<not> is_high 117" by (simp_all add: is_high_def)
  from assms consider x where "e = [92, x]" "x \<in> {92, 34, 98, 102, 110, 114, 116, 10, 13}"
    | h1 h2 h3 h4 where "e = [92, 117, h1, h2, h3, h4]" "is_hex h1" "is_hex h2" "is_hex h3" "is_hex h4"
    unfolding spec_escape_def by blast
  then show ?thesis
  proof cases
    case 1
    from 1(2) have "\<not> is_high x" by (auto simp: is_high_def)
    with 1 nh show ?thesis
      by (auto simp: S_CHAR_def S_ESCAPE_def next_char_not_high)
  next
    case 2
    then show ?thesis
      using nh by (simp add: S_CHAR_def S_ESCAPE_def Rep4_def next_char_not_high matches_hex)
  qed
qed

lemma matches_plain:
  assumes "plain_char a"
  shows "\<exists>z'. matches True S_CHAR (a # z) = [z']
            \<and> (z' = z \<or> (is_high a \<and> (\<exists>d. z = d # z' \<and> is_low d)))"
proof -
  obtain x t where n: "next_char True (a # z) = Some (x, t)"
    using next_char_Some by blast
  from next_char_cases[OF n] have t: "t = z \<or> (is_high a \<and> (\<exists>d. z = d # t \<and> is_low d))"
    by auto
  from next_char_hd[OF n] assms have x: "x \<noteq> 92 \<and> \<not> in_ranges x [(0, 31), (98, 98), (34, 34), (92, 92), (13, 13), (10, 10)]"
    by (auto simp: plain_char_def)
  from n x have "matches True S_CHAR (a # z) = [t]"
    by (simp add: S_CHAR_def)
  with t show ?thesis by blast
qed

lemma matches_bad:
  assumes "c \<le> 31 \<or> c = 98 \<or> c = 34"
  shows "matches True S_CHAR (c # z) = []"
proof -
  from assms have "\<not> is_high c" by (auto simp: is_high_def)
  then have "next_char True (c # z) = Some (c, z)" by (rule next_char_not_high)
  with assms show ?thesis
    by (auto simp: S_CHAR_def)
qed

lemma matches_char_empty: "matches True S_CHAR [] = []"
  by (simp add: S_CHAR_def)

lemma string_chars_append:
  "string_chars q \<Longrightarrow> string_chars r \<Longrightarrow> string_chars (q @ r)"
proof (induction q rule: string_chars.induct)
  case no_chars
  then show ?case by simp
next
  case (escape e q)
  then have "string_chars (q @ r)" by simp
  from string_chars.escape[OF escape.hyps(1) this] show ?case by simp
next
  case (plain c q)
  then show ?case by (simp add: string_chars.plain)
qed

lemma spec_escape_hd: "spec_escape e \<Longrightarrow> e \<noteq> [] \<and> hd e = 92"
  by (auto simp: spec_escape_def)

lemma string_chars_tl:
  assumes "string_chars (d # r)" and "d \<noteq> 92"
  shows "string_chars r \<and> plain_char d"
  using assms
proof (cases rule: string_chars.cases)
  case (escape e q)
  with spec_escape_hd[of e] assms(2) show ?thesis by (cases e) auto
next
  case plain
  then show ?thesis by simp
qed

lemma string_chars_hd: "string_chars q \<Longrightarrow> q \<noteq> [] \<Longrightarrow> hd q \<noteq> 34"
  by (induction q rule: string_chars.induct) (auto simp: spec_escape_def plain_char_def)

lemma in_char:
  assumes "z \<in> set (matches True S_CHAR s)"
  shows "\<exists>q. s = q @ z \<and> q \<noteq> [] \<and> string_chars q"
proof -
  from assms consider
      (esc) y where "y \<in> set (matches True (Chr 92) s)" "z \<in> set (matches True S_ESCAPE y)"
    | (pl) "z \<in> set (matches True (NCls [(0, 31), (98, 98), (34, 34), (92, 92), (13, 13), (10, 10)]) s)"
    unfolding S_CHAR_def by auto
  then show ?thesis
  proof cases
    case esc
    from esc(1) have "next_char True s = Some (92, y)"
      by (cases "next_char True s") (auto split: if_splits)
    then have s: "s = 92 # y" by (rule next_char_small) simp
    from esc(2) consider
        (simple) "z \<in> set (matches True (Cls [(92, 92), (34, 34), (98, 98), (102, 102), (110, 110),
              (114, 114), (116, 116), (10, 10), (13, 13)]) y)"
      | (uni) "z \<in> set (matches True (Seq (Chr 117) (Rep4 S_HEX)) y)"
      unfolding S_ESCAPE_def by auto
    then have "\<exists>e. 92 # y = e @ z \<and> spec_escape e"
    proof cases
      case simple
      then obtain x where n: "next_char True y = Some (x, z)"
        and x: "x \<in> {92, 34, 98, 102, 110, 114, 116, 10, 13}"
        by (cases "next_char True y") (auto split: if_splits)
      from x have "x < 55296" by auto
      with n have "y = x # z" by (rule next_char_small)
      with x show ?thesis
        by (intro exI[of _ "[92, x]"]) (simp add: spec_escape_def)
    next
      case uni
      have hex: "\<And>a b. b \<in> set (matches True S_HEX a) \<Longrightarrow> \<exists>h. a = h # b \<and> is_hex h"
      proof -
        fix a b assume "b \<in> set (matches True S_HEX a)"
        then obtain h where n: "next_char True a = Some (h, b)"
          and h: "in_ranges h [(48, 57), (97, 102), (65, 70)]"
          unfolding S_HEX_def by (cases "next_char True a") (auto split: if_splits)
        from h have "h < 55296" by auto
        with n have "a = h # b" by (rule next_char_small)
        with h show "\<exists>h. a = h # b \<and> is_hex h" by (auto simp: is_hex_def)
      qed
      from uni obtain y0 y1 y2 y3 where 0: "y0 \<in> set (matches True (Chr 117) y)"
        and 1: "y1 \<in> set (matches True S_HEX y0)" and 2: "y2 \<in> set (matches True S_HEX y1)"
        and 3: "y3 \<in> set (matches True S_HEX y2)" and 4: "z \<in> set (matches True S_HEX y3)"
        unfolding Rep4_def in_Seq by blast
      from 0 have "next_char True y = Some (117, y0)"
        by (cases "next_char True y") (auto split: if_splits)
      then have y: "y = 117 # y0" by (rule next_char_small) simp
      from hex[OF 1] hex[OF 2] hex[OF 3] hex[OF 4] obtain h1 h2 h3 h4
        where "y0 = h1 # h2 # h3 # h4 # z" "is_hex h1" "is_hex h2" "is_hex h3" "is_hex h4"
        by auto
      with y show ?thesis
        by (intro exI[of _ "[92, 117, h1, h2, h3, h4]"]) (simp add: spec_escape_def)
    qed
    then obtain e where e: "92 # y = e @ z" "spec_escape e" by blast
    from string_chars.escape[OF e(2) string_chars.no_chars] have "string_chars e" by simp
    with e s spec_escape_hd[of e] show ?thesis by blast
  next
    case pl
    then obtain x where n: "next_char True s = Some (x, z)"
      and x: "\<not> in_ranges x [(0, 31), (98, 98), (34, 34), (92, 92), (13, 13), (10, 10)]"
      by (cases "next_char True s") (auto split: if_splits)
    from next_char_cases[OF n] show ?thesis
    proof (elim disjE exE conjE)
      assume s: "s = x # z"
      from x have "plain_char x" by (auto simp: plain_char_def)
      then have "string_chars [x]" by (intro string_chars.plain string_chars.no_chars)
      with s show ?thesis by (intro exI[of _ "[x]"]) simp
    next
      fix c d assume s: "s = c # d # z" and c: "is_high c" and d: "is_low d"
      from c d have "plain_char c" "plain_char d"
        by (auto simp: plain_char_def is_high_def is_low_def)
      then have "string_chars [c, d]"
        by (intro string_chars.plain string_chars.no_chars)
      with s show ?thesis by (intro exI[of _ "[c, d]"]) simp
    qed
  qed
qed

lemma in_star_char:
  "z \<in> set (matches True (Star S_CHAR) s) \<Longrightarrow> \<exists>q. s = q @ z \<and> string_chars q"
proof (induction "length s" arbitrary: s rule: less_induct)
  case less
  from less.prems consider "z = s"
    | y where "y \<in> set (matches True S_CHAR s)" "length y < length s"
        "z \<in> set (matches True (Star S_CHAR) y)"
    by (subst (asm) in_Star) blast
  then show ?case
  proof cases
    case 1
    then show ?thesis by (intro exI[of _ "[]"]) (simp add: string_chars.no_chars)
  next
    case 2
    from in_char[OF 2(1)] obtain q1 where q1: "s = q1 @ y" "string_chars q1" by blast
    from less.hyps[OF 2(2) 2(3)] obtain q2 where q2: "y = q2 @ z" "string_chars q2" by blast
    from q1 q2 string_chars_append[OF q1(2) q2(2)] show ?thesis
      by (intro exI[of _ "q1 @ q2"]) simp
  qed
qed

lemma star_char_head:
  "string_chars body \<Longrightarrow> \<exists>zs. matches True (Star S_CHAR) (body @ 34 # t) = (34 # t) # zs"
proof (induction "length body" arbitrary: body rule: less_induct)
  case less
  have step: "\<And>y. matches True S_CHAR (body @ 34 # t) = [y] \<Longrightarrow> length y < length (body @ 34 # t)
        \<Longrightarrow> \<exists>zs. matches True (Star S_CHAR) y = (34 # t) # zs
        \<Longrightarrow> \<exists>zs. matches True (Star S_CHAR) (body @ 34 # t) = (34 # t) # zs"
    by (subst matches_Star) auto
  from less.prems show ?case
  proof (cases rule: string_chars.cases)
    case no_chars
    then show ?thesis
      by (subst matches_Star) (simp add: matches_bad)
  next
    case (escape e r)
    from spec_escape_hd[OF escape(2)] escape(1) have len: "length r < length body"
      by (cases e) auto
    from matches_escape[OF escape(2), of "r @ 34 # t"] escape(1)
    have m: "matches True S_CHAR (body @ 34 # t) = [r @ 34 # t]" by simp
    from less.hyps[OF len escape(3)] show ?thesis
      using step[OF m] len by simp
  next
    case (plain c r)
    from matches_plain[OF plain(2), of "r @ 34 # t"] obtain z'
      where m: "matches True S_CHAR (c # r @ 34 # t) = [z']"
        and z': "z' = r @ 34 # t \<or> (is_high c \<and> (\<exists>d. r @ 34 # t = d # z' \<and> is_low d))"
      by blast
    from z' obtain r' where r': "z' = r' @ 34 # t" "string_chars r'" "length r' \<le> length r"
    proof (elim disjE conjE exE)
      assume "z' = r @ 34 # t"
      with plain(3) show ?thesis by (intro that[of r]) simp_all
    next
      fix d assume d: "r @ 34 # t = d # z'" "is_low d"
      then obtain r0 where r0: "r = d # r0" "z' = r0 @ 34 # t"
        by (cases r) (auto simp: is_low_def)
      from d(2) have "d \<noteq> 92" by (auto simp: is_low_def)
      with string_chars_tl[of d r0] plain(3) r0 have "string_chars r0" by simp
      with r0 show ?thesis by (intro that[of r0]) simp_all
    qed
    from r'(3) plain(1) have len: "length r' < length body" by simp
    from less.hyps[OF len r'(2)] show ?thesis
      using step[of z'] m plain(1) r'(1) len by auto
  qed
qed

lemma star_char_stuck:
  "string_chars body \<Longrightarrow> c \<le> 31 \<or> c = 98 \<Longrightarrow>
     z \<in> set (matches True (Star S_CHAR) (body @ c # rest)) \<Longrightarrow> z \<noteq> [] \<and> hd z \<noteq> 34"
proof (induction "length body" arbitrary: body rule: less_induct)
  case less
  from less.prems(2) have c34: "c \<noteq> 34" by auto
  from less.prems(3) consider "z = body @ c # rest"
    | y where "y \<in> set (matches True S_CHAR (body @ c # rest))"
        "z \<in> set (matches True (Star S_CHAR) y)"
    by (subst (asm) in_Star) blast
  then show ?case
  proof cases
    case 1
    with string_chars_hd[OF less.prems(1)] c34 show ?thesis
      by (cases body) auto
  next
    case 2
    from less.prems(1) show ?thesis
    proof (cases rule: string_chars.cases)
      case no_chars
      with 2(1) less.prems(2) show ?thesis by (auto simp: matches_bad)
    next
      case (escape e r)
      from spec_escape_hd[OF escape(2)] escape(1) have len: "length r < length body"
        by (cases e) auto
      from matches_escape[OF escape(2), of "r @ c # rest"] escape(1) 2(1)
      have "y = r @ c # rest" by simp
      with less.hyps[OF len escape(3) less.prems(2)] 2(2) show ?thesis by simp
    next
      case (plain a r)
      from matches_plain[OF plain(2), of "r @ c # rest"] obtain z'
        where m: "matches True S_CHAR (a # r @ c # rest) = [z']"
          and z': "z' = r @ c # rest \<or> (is_high a \<and> (\<exists>d. r @ c # rest = d # z' \<and> is_low d))"
        by blast
      from z' obtain r' where r': "z' = r' @ c # rest" "string_chars r'" "length r' \<le> length r"
      proof (elim disjE conjE exE)
        assume "z' = r @ c # rest"
        with plain(3) show ?thesis by (intro that[of r]) simp_all
      next
        fix d assume d: "r @ c # rest = d # z'" "is_low d"
        with less.prems(2) obtain r0 where r0: "r = d # r0" "z' = r0 @ c # rest"
          by (cases r) (auto simp: is_low_def)
        from d(2) have "d \<noteq> 92" by (auto simp: is_low_def)
        with string_chars_tl[of d r0] plain(3) r0 have "string_chars r0" by simp
        with r0 show ?thesis by (intro that[of r0]) simp_all
      qed
      from r'(3) plain(1) have len: "length r' < length body" by simp
      from m plain(1) 2(1) r'(1) have "y = r' @ c # rest" by simp
      with less.hyps[OF len r'(2) less.prems(2)] 2(2) show ?thesis by simp
    qed
  qed
qed

lemma quote_fail: "z = [] \<or> hd z \<noteq> 34 \<Longrightarrow> matches True (Chr 34) z = []"
proof (cases z)
  case Nil
  then show ?thesis by simp
next
  case (Cons c r)
  assume "z = [] \<or> hd z \<noteq> 34"
  with Cons have c: "c \<noteq> 34" by simp
  obtain x t where n: "next_char True (c # r) = Some (x, t)"
    using next_char_Some by blast
  from next_char_hd[OF n] c have "x \<noteq> 34" by auto
  with n Cons show ?thesis by simp
qed

lemma quote_ok: "matches True (Chr 34) (34 # z) = [z]"
  by (simp add: next_char_not_high is_high_def)

lemma string_raw_fails:
  assumes "string_chars body" and "c \<le> 31 \<or> c = 98"
  shows "regex_match True S_STRING (34 # body @ c # rest) = None"
proof -
  have "\<forall>z \<in> set (matches True (Star S_CHAR) (body @ c # rest)). matches True (Chr 34) z = []"
    using star_char_stuck[OF assms] quote_fail by blast
  then have "matches True (Seq (Star S_CHAR) (Chr 34)) (body @ c # rest) = []"
    by simp
  then have "matches True S_STRING (34 # body @ c # rest) = []"
    unfolding S_STRING_def by (simp add: next_char_not_high is_high_def)
  then show ?thesis by (simp add: regex_match_None_iff)
qed

lemma string_whole:
  assumes "spec_string p"
  shows "regex_match True S_STRING (p @ t) = Some p"
proof -
  from assms obtain body where p: "p = 34 # body @ [34]" and b: "string_chars body"
    unfolding spec_string_def by blast
  from star_char_head[OF b, of t] obtain zs
    where "matches True (Star S_CHAR) (body @ 34 # t) = (34 # t) # zs" by blast
  then have "\<exists>ws. matches True (Seq (Star S_CHAR) (Chr 34)) (body @ 34 # t) = t # ws"
    using matches_Seq_head[OF _ quote_ok] by blast
  then obtain ws where "matches True S_STRING (34 # body @ 34 # t) = t # ws"
    unfolding S_STRING_def by (auto simp: next_char_not_high is_high_def)
  with p show ?thesis by (simp add: regex_match_def)
qed

lemma regex_match_string:
  assumes "regex_match True S_STRING s = Some p"
  shows "spec_string p"
proof -
  from assms obtain z zs where m: "matches True S_STRING s = z # zs" and s: "s = p @ z"
    by (auto simp: regex_match_Some_iff)
  from m have "z \<in> set (matches True S_STRING s)" by simp
  then obtain y w where 1: "y \<in> set (matches True (Chr 34) s)"
    and 2: "w \<in> set (matches True (Star S_CHAR) y)" and 3: "z \<in> set (matches True (Chr 34) w)"
    unfolding S_STRING_def in_Seq by blast
  from 1 have "next_char True s = Some (34, y)"
    by (cases "next_char True s") (auto split: if_splits)
  then have sy: "s = 34 # y" by (rule next_char_small) simp
  from 3 have "next_char True w = Some (34, z)"
    by (cases "next_char True w") (auto split: if_splits)
  then have wz: "w = 34 # z" by (rule next_char_small) simp
  from in_star_char[OF 2] obtain q where "y = q @ w" "string_chars q" by blast
  with sy wz s have "p = 34 # q @ [34]" "string_chars q" by auto
  then show ?thesis unfolding spec_string_def by blast
qed

lemma lex_string_alone:
  assumes "spec_string p"
  shows "lex (Lexer p)
       = Inr (Token TOKEN_STRING p 0, \<lparr>index = length p, source = p, input = [], stash = []\<rparr>)"
proof -
  from assms obtain r where p: "p = 34 # r"
    unfolding spec_string_def by auto
  have sk: "skipWhitespace (Lexer p) = Lexer p"
    using p by (simp add: skipWhitespace_eq Lexer_def forward_def)
  have st: "regex_match True S_STRING p = Some p"
    using string_whole[OF assms, of "[]"] by simp
  show ?thesis
    unfolding lex_def sk grammar_def
    by (simp add: Lexer_def st Token_def skipWhitespace_eq forward_def)
qed

subsection \<open>A punctuator in the place of a value\<close>

lemma forward_fields [simp]:
  "source (forward n lx) = source lx" "stash (forward n lx) = stash lx"
  "index (forward n lx) = index lx + n"
  by (simp_all add: forward_def)

lemma lex_keeps:
  assumes "lex lx = Inr (tok, lx')"
  shows "stash lx' = stash lx" and "source lx' = source lx"
  using lex_Inr_state[OF assms] by (simp_all add: skipWhitespace_fields)

lemma peek_stash:
  assumes "stash lx = tok # ts"
  shows "(\<exists>e. peek lx = Inl e)
       \<or> (\<exists>lx' ts'. peek lx = Inr (Some tok, lx') \<and> stash lx' = tok # ts')"
proof (cases "hasEnded lx")
  case True
  with assms show ?thesis by (simp add: peek_def lookahead_def)
next
  case False
  show ?thesis
  proof (cases "lex lx")
    case (Inl e)
    with False show ?thesis by (simp add: peek_def lookahead_def)
  next
    case (Inr r)
    obtain t lx' where r: "r = (t, lx')" by (cases r)
    from lex_keeps(1)[of lx t lx'] Inr r assms have "stash lx' = tok # ts" by simp
    with False Inr r show ?thesis by (simp add: peek_def lookahead_def)
  qed
qed

lemma is_value_stash:
  assumes "stash lx = tok # ts"
  shows "(\<exists>e. is_value v lx = Inl e)
       \<or> (\<exists>lx' ts'. is_value v lx = Inr (t_value tok = v, lx') \<and> stash lx' = tok # ts')"
  using peek_stash[OF assms] by (auto simp: is_value_def)

lemma number_needs_start:
  assumes "s = [] \<or> \<not> is_digit (hd s) \<and> hd s \<noteq> 45 \<and> hd s \<noteq> 46"
  shows "regex_match False S_NUMBER s = None"
proof (rule ccontr)
  assume "regex_match False S_NUMBER s \<noteq> None"
  then obtain q where q: "regex_match False S_NUMBER s = Some q" by auto
  then obtain z where "s = q @ z"
    by (auto simp: regex_match_Some_iff)
  with spec_number_hd[OF regex_match_number[OF q]] assms show False
    by (cases q) auto
qed

lemma parse_quote_fails:
  assumes "regex_match True S_STRING (34 # s) = None"
  shows "\<exists>e. parse (Suc n) (34 # s) = Some (Inl e)"
proof -
  let ?src = "34 # s"
  let ?tok = "Token TOKEN_PUNCTUATOR [34] 0"
  have sk: "skipWhitespace (Lexer ?src) = Lexer ?src"
    by (simp add: skipWhitespace_eq Lexer_def forward_def)
  have nu: "regex_match False S_NUMBER ?src = None"
    by (rule number_needs_start) (simp add: is_digit_def)
  have pu: "regex_match False S_PUNC ?src = Some [34]"
    by (simp add: regex_match_def S_PUNC_def)
  obtain lx1 where l: "lex (Lexer ?src) = Inr (?tok, lx1)"
    unfolding lex_def sk grammar_def using assms nu pu by (simp add: Lexer_def Let_def)
  from lex_keeps(1)[OF l] have st: "stash lx1 = []" by (simp add: Lexer_def)
  define lx2 where "lx2 = lx1\<lparr>stash := stash lx1 @ [?tok]\<rparr>"
  have pk: "peek (Lexer ?src) = Inr (Some ?tok, lx2)"
    using l st by (simp add: peek_def lookahead_def hasEnded_def Lexer_def lx2_def)
  have s2: "stash lx2 = ?tok # []" by (simp add: lx2_def st)
  have lit: "literal_node ?tok = None"
    by (simp add: literal_node_def Token_def)
  have v1: "t_value ?tok \<noteq> str ''{''" and v2: "t_value ?tok \<noteq> str ''[''"
    by (simp_all add: Token_def str_def)
  from is_value_stash[OF s2, of "str ''{''"] show ?thesis
  proof (elim disjE exE conjE)
    fix e assume "is_value (str ''{'') lx2 = Inl e"
    with pk show ?thesis by (simp add: parse_def)
  next
    fix lx3 ts3 assume i1: "is_value (str ''{'') lx2 = Inr (t_value ?tok = str ''{'', lx3)"
      and s3: "stash lx3 = ?tok # ts3"
    from is_value_stash[OF s3, of "str ''[''"] show ?thesis
    proof (elim disjE exE conjE)
      fix e assume "is_value (str ''['') lx3 = Inl e"
      with pk i1 v1 show ?thesis by (simp add: parse_def)
    next
      fix lx4 ts4 assume i2: "is_value (str ''['') lx3 = Inr (t_value ?tok = str ''['', lx4)"
      with pk i1 v1 v2 lit show ?thesis by (simp add: parse_def)
    qed
  qed
qed

section \<open>Invariants of the parser\<close>

lemma ok_result_simps [simp]:
  "ok_result I E P (Inl e) = E e"
  "ok_result I E P (Inr (x, lx)) = (I lx \<and> P x)"
  by (simp_all add: ok_result_def)

lemma parser_error_simps [simp]:
  "parser_error T TypeError_null" "parser_error T TypeError_undefined"
  "parser_error T ReferenceError" "parser_error T (Error (str ''Unexpected end of input''))"
  by (simp_all add: parser_error_def)

lemma parser_error_token:
  "T tok \<Longrightarrow> parser_error T (Error (str ''Unexpected token '' @ t_value tok))"
  "T tok \<Longrightarrow> parser_error T (Error (str ''Expected '' @ [39] @ str ''[object Arguments]'' @ [39]
                           @ str '', got '' @ [39] @ t_value tok @ [39]))"
  unfolding parser_error_def by blast+

lemma is_value_ok:
  assumes pk: "\<forall>lx. I lx \<longrightarrow> ok_result I E (\<lambda>t. \<forall>tok. t = Some tok \<longrightarrow> T tok) (peek lx)"
    and "I lx"
  shows "ok_result I (\<lambda>e. E e \<or> parser_error T e) (\<lambda>b. True) (is_value v lx)"
proof -
  from pk assms(2) have "ok_result I E (\<lambda>t. \<forall>tok. t = Some tok \<longrightarrow> T tok) (peek lx)" by blast
  then show ?thesis
    by (cases "peek lx") (auto simp: is_value_def split: option.splits)
qed

lemma peek_ok:
  assumes pk: "\<forall>lx. I lx \<longrightarrow> ok_result I E (\<lambda>t. \<forall>tok. t = Some tok \<longrightarrow> T tok) (peek lx)"
    and "I lx"
  shows "ok_result I (\<lambda>e. E e \<or> parser_error T e) (\<lambda>t. \<forall>tok. t = Some tok \<longrightarrow> T tok) (peek lx)"
proof -
  from pk assms(2) have "ok_result I E (\<lambda>t. \<forall>tok. t = Some tok \<longrightarrow> T tok) (peek lx)" by blast
  then show ?thesis by (cases "peek lx") auto
qed

lemma next_ok:
  assumes nx: "\<forall>lx. I lx \<longrightarrow> ok_result I E (\<lambda>t. \<forall>tok. t = Some tok \<longrightarrow> T tok) (next_token lx)"
    and "I lx"
  shows "ok_result I (\<lambda>e. E e \<or> parser_error T e) (\<lambda>t. True) (next_token lx)"
proof -
  from nx assms(2) have "ok_result I E (\<lambda>t. \<forall>tok. t = Some tok \<longrightarrow> T tok) (next_token lx)" by blast
  then show ?thesis by (cases "next_token lx") auto
qed

lemma ensure_ok:
  assumes nx: "\<forall>lx. I lx \<longrightarrow> ok_result I E (\<lambda>t. \<forall>tok. t = Some tok \<longrightarrow> T tok) (next_token lx)"
    and "I lx"
  shows "ok_result I (\<lambda>e. E e \<or> parser_error T e) T (ensure args lx)"
proof (cases "next_token lx")
  case (Inl e)
  from nx assms(2) have "ok_result I E (\<lambda>t. \<forall>tok. t = Some tok \<longrightarrow> T tok) (next_token lx)" by blast
  with Inl show ?thesis by (auto simp: ensure_def)
next
  case (Inr a)
  obtain t l where a: "a = (t, l)" by (cases a)
  from nx assms(2) have "ok_result I E (\<lambda>t. \<forall>tok. t = Some tok \<longrightarrow> T tok) (next_token lx)" by blast
  with Inr a have l: "I l" and t: "\<forall>tok. t = Some tok \<longrightarrow> T tok" by auto
  show ?thesis
  proof (cases t)
    case None
    with Inr a show ?thesis by (simp add: ensure_def)
  next
    case (Some tok)
    with t have "T tok" by simp
    with Inr a Some l parser_error_token(2)[of T tok] show ?thesis
      by (simp add: ensure_def)
  qed
qed

lemma ensureType_ok:
  assumes nx: "\<forall>lx. I lx \<longrightarrow> ok_result I E (\<lambda>t. \<forall>tok. t = Some tok \<longrightarrow> T tok) (next_token lx)"
    and "I lx"
  shows "ok_result I (\<lambda>e. E e \<or> parser_error T e) T (ensureType args lx)"
proof -
  from nx assms(2) have "ok_result I E (\<lambda>t. \<forall>tok. t = Some tok \<longrightarrow> T tok) (next_token lx)" by blast
  then show ?thesis
    by (cases "next_token lx") (auto simp: ensureType_def split: option.splits)
qed

lemma bind_okE:
  assumes "(case m of Inl e \<Rightarrow> Some (Inl e) | Inr (x, l) \<Rightarrow> k x l) = Some r"
    and "ok_result I E P m" and "\<not> ok_result I E Q r"
  obtains x l where "m = Inr (x, l)" "I l" "P x" "k x l = Some r"
  using assms by (cases m) auto

lemma bind_opt_okE:
  assumes "(case m of None \<Rightarrow> None | Some y \<Rightarrow> (case y of Inl e \<Rightarrow> Some (Inl e) | Inr (x, l) \<Rightarrow> k x l))
             = Some r"
    and "\<forall>y. m = Some y \<longrightarrow> ok_result I E P y" and "\<not> ok_result I E Q r"
  obtains x l where "m = Some (Inr (x, l))" "I l" "P x" "k x l = Some r"
proof (cases m)
  case None
  with assms(1) show ?thesis by simp
next
  case (Some y)
  with assms show ?thesis by (cases y) (auto intro: that)
qed

lemma objectLoop_ok_step:
  assumes pk: "\<forall>lx. I lx \<longrightarrow> ok_result I E (\<lambda>t. \<forall>tok. t = Some tok \<longrightarrow> T tok) (peek lx)"
    and nx: "\<forall>lx. I lx \<longrightarrow> ok_result I E (\<lambda>t. \<forall>tok. t = Some tok \<longrightarrow> T tok) (next_token lx)"
    and pv: "\<forall>lx y. I lx \<longrightarrow> parseValue n lx = Some y
                 \<longrightarrow> ok_result I (\<lambda>e. E e \<or> parser_error T e) (built_from T) y"
    and rec: "\<forall>ps lx y. I lx \<longrightarrow> (\<forall>p\<in>set ps. T (p_key p)) \<longrightarrow> objectLoop n ps lx = Some y
                 \<longrightarrow> ok_result I (\<lambda>e. E e \<or> parser_error T e) (\<lambda>ps. \<forall>p\<in>set ps. T (p_key p)) y"
    and i: "I lx" and ps: "\<forall>p\<in>set ps. T (p_key p)"
    and run: "objectLoop (Suc n) ps lx = Some r"
  shows "ok_result I (\<lambda>e. E e \<or> parser_error T e) (\<lambda>ps. \<forall>p\<in>set ps. T (p_key p)) r"
proof (rule ccontr)
  assume n: "\<not> ok_result I (\<lambda>e. E e \<or> parser_error T e) (\<lambda>ps. \<forall>p\<in>set ps. T (p_key p)) r"
  have ext: "\<And>key v a b. T key \<Longrightarrow> \<forall>p\<in>set (ps @ [Property key v a b]). T (p_key p)"
    using ps by (simp add: Property_def)
  have again: "\<And>key v l. T key \<Longrightarrow> I l
         \<Longrightarrow> objectLoop n (ps @ [Property key v (Some (t_start key)) (node_end v)]) l = Some r \<Longrightarrow> False"
    using rec ext n by blast
  show False
  proof (rule bind_okE[OF run[unfolded objectLoop.simps] is_value_ok[OF pk i] n], goal_cases)
    case (1 b1 l1)
    with n ps have b1: "\<not> b1" by (cases b1) auto
    show ?case
    proof (rule bind_okE[OF 1(4)[simplified b1 bool.case] ensureType_ok[OF nx 1(2)] n], goal_cases)
      case (1 key l2)
      note key = 1(3)
      show ?case
      proof (rule bind_okE[OF 1(4) ensure_ok[OF nx 1(2)] n], goal_cases)
        case (1 c l3)
        from pv 1(2) have "\<forall>y. parseValue n l3 = Some y
            \<longrightarrow> ok_result I (\<lambda>e. E e \<or> parser_error T e) (built_from T) y" by blast
        from 1(4) this n show ?case
        proof (rule bind_opt_okE, goal_cases)
          case (1 v l4)
          show ?case
          proof (rule bind_okE[OF 1(4) is_value_ok[OF pk 1(2)] n], goal_cases)
            case (1 b2 l5)
            show ?case
            proof (cases b2)
              case True
              with 1(4) have "objectLoop n
                  (ps @ [Property key v (Some (t_start key)) (node_end v)]) l5 = Some r" by simp
              from again[OF key 1(2) this] show ?thesis .
            next
              case False
              with 1(4) have e: "(case ensure [str '',''] l5 of Inl e \<Rightarrow> Some (Inl e)
                  | Inr (xa, xb) \<Rightarrow> objectLoop n
                      (ps @ [Property key v (Some (t_start key)) (node_end v)]) xb) = Some r"
                by simp
              show ?thesis
              proof (rule bind_okE[OF e ensure_ok[OF nx 1(2)] n], goal_cases)
                case (1 c2 l6)
                from again[OF key 1(2) 1(4)] show ?case .
              qed
            qed
          qed
        qed
      qed
    qed
  qed
qed

lemma arrayLoop_ok_step:
  assumes pk: "\<forall>lx. I lx \<longrightarrow> ok_result I E (\<lambda>t. \<forall>tok. t = Some tok \<longrightarrow> T tok) (peek lx)"
    and nx: "\<forall>lx. I lx \<longrightarrow> ok_result I E (\<lambda>t. \<forall>tok. t = Some tok \<longrightarrow> T tok) (next_token lx)"
    and pv: "\<forall>lx y. I lx \<longrightarrow> parseValue n lx = Some y
                 \<longrightarrow> ok_result I (\<lambda>e. E e \<or> parser_error T e) (built_from T) y"
    and rec: "\<forall>xs lx y. I lx \<longrightarrow> (\<forall>x\<in>set xs. built_from T x) \<longrightarrow> arrayLoop n xs lx = Some y
                 \<longrightarrow> ok_result I (\<lambda>e. E e \<or> parser_error T e) (\<lambda>xs. \<forall>x\<in>set xs. built_from T x) y"
    and i: "I lx" and xs: "\<forall>x\<in>set xs. built_from T x"
    and run: "arrayLoop (Suc n) xs lx = Some r"
  shows "ok_result I (\<lambda>e. E e \<or> parser_error T e) (\<lambda>xs. \<forall>x\<in>set xs. built_from T x) r"
proof (rule ccontr)
  assume n: "\<not> ok_result I (\<lambda>e. E e \<or> parser_error T e) (\<lambda>xs. \<forall>x\<in>set xs. built_from T x) r"
  have again: "\<And>v l. built_from T v \<Longrightarrow> I l \<Longrightarrow> arrayLoop n (xs @ [v]) l = Some r \<Longrightarrow> False"
  proof -
    fix v l assume "built_from T v" "I l" "arrayLoop n (xs @ [v]) l = Some r"
    moreover from this(1) xs have "\<forall>x\<in>set (xs @ [v]). built_from T x" by simp
    ultimately show False using rec n by blast
  qed
  show False
  proof (rule bind_okE[OF run[unfolded arrayLoop.simps] is_value_ok[OF pk i] n], goal_cases)
    case (1 b1 l1)
    with n xs have b1: "\<not> b1" by (cases b1) auto
    from pv 1(2) have "\<forall>y. parseValue n l1 = Some y
        \<longrightarrow> ok_result I (\<lambda>e. E e \<or> parser_error T e) (built_from T) y" by blast
    from 1(4)[simplified b1 bool.case] this n show ?case
    proof (rule bind_opt_okE, goal_cases)
      case (1 v l2)
      note v = 1(3)
      show ?case
      proof (rule bind_okE[OF 1(4) is_value_ok[OF pk 1(2)] n], goal_cases)
        case (1 b2 l3)
        show ?case
        proof (cases b2)
          case True
          with 1(4) have "arrayLoop n (xs @ [v]) l3 = Some r" by simp
          from again[OF v 1(2) this] show ?thesis .
        next
          case False
          with 1(4) have e: "(case ensure [str '',''] l3 of Inl e \<Rightarrow> Some (Inl e)
              | Inr (xa, xb) \<Rightarrow> arrayLoop n (xs @ [v]) xb) = Some r"
            by simp
          show ?thesis
          proof (rule bind_okE[OF e ensure_ok[OF nx 1(2)] n], goal_cases)
            case (1 c2 l4)
            from again[OF v 1(2) 1(4)] show ?case .
          qed
        qed
      qed
    qed
  qed
qed

lemma parseObjectLiteral_ok:
  assumes nx: "\<forall>lx. I lx \<longrightarrow> ok_result I E (\<lambda>t. \<forall>tok. t = Some tok \<longrightarrow> T tok) (next_token lx)"
    and loop: "\<forall>ps lx y. I lx \<longrightarrow> (\<forall>p\<in>set ps. T (p_key p)) \<longrightarrow> objectLoop n ps lx = Some y
                 \<longrightarrow> ok_result I (\<lambda>e. E e \<or> parser_error T e) (\<lambda>ps. \<forall>p\<in>set ps. T (p_key p)) y"
    and i: "I lx" and run: "parseObjectLiteral n lx = Some r"
  shows "ok_result I (\<lambda>e. E e \<or> parser_error T e) (built_from T) r"
proof (rule ccontr)
  assume n: "\<not> ok_result I (\<lambda>e. E e \<or> parser_error T e) (built_from T) r"
  show False
  proof (rule bind_okE[OF run[unfolded parseObjectLiteral.simps] ensure_ok[OF nx i] n], goal_cases)
    case (1 startToken l1)
    have "\<forall>y. objectLoop n [] l1 = Some y
        \<longrightarrow> ok_result I (\<lambda>e. E e \<or> parser_error T e) (\<lambda>ps. \<forall>p\<in>set ps. T (p_key p)) y"
      using loop[THEN spec, of "[]", THEN spec, of l1] 1(2) by simp
    from 1(4) this n show ?case
    proof (rule bind_opt_okE, goal_cases)
      case (1 ps l2)
      note ps = 1(3)
      show ?case
      proof (rule bind_okE[OF 1(4) ensure_ok[OF nx 1(2)] n], goal_cases)
        case (1 endToken l3)
        with ps n show ?case by auto
      qed
    qed
  qed
qed

lemma parseArrayLiteral_ok:
  assumes nx: "\<forall>lx. I lx \<longrightarrow> ok_result I E (\<lambda>t. \<forall>tok. t = Some tok \<longrightarrow> T tok) (next_token lx)"
    and loop: "\<forall>xs lx y. I lx \<longrightarrow> (\<forall>x\<in>set xs. built_from T x) \<longrightarrow> arrayLoop n xs lx = Some y
                 \<longrightarrow> ok_result I (\<lambda>e. E e \<or> parser_error T e) (\<lambda>xs. \<forall>x\<in>set xs. built_from T x) y"
    and i: "I lx" and run: "parseArrayLiteral n lx = Some r"
  shows "ok_result I (\<lambda>e. E e \<or> parser_error T e) (built_from T) r"
proof (rule ccontr)
  assume n: "\<not> ok_result I (\<lambda>e. E e \<or> parser_error T e) (built_from T) r"
  show False
  proof (rule bind_okE[OF run[unfolded parseArrayLiteral.simps] ensure_ok[OF nx i] n], goal_cases)
    case (1 startToken l1)
    have "\<forall>y. arrayLoop n [] l1 = Some y
        \<longrightarrow> ok_result I (\<lambda>e. E e \<or> parser_error T e) (\<lambda>xs. \<forall>x\<in>set xs. built_from T x) y"
      using loop[THEN spec, of "[]", THEN spec, of l1] 1(2) by simp
    from 1(4) this n show ?case
    proof (rule bind_opt_okE, goal_cases)
      case (1 xs l2)
      note xs = 1(3)
      show ?case
      proof (rule bind_okE[OF 1(4) ensure_ok[OF nx 1(2)] n], goal_cases)
        case (1 endToken l3)
        with xs n show ?case by auto
      qed
    qed
  qed
qed

lemma literal_node_built:
  assumes "literal_node tok = Some v" and "T tok"
  shows "built_from T v"
proof -
  from assms have ex: "\<exists>t. T t \<and> literal_node t = Some v" by blast
  from assms(1) have "(\<forall>xs s e. v \<noteq> ArrayLiteral xs s e) \<and> (\<forall>ps s e. v \<noteq> ObjectLiteral ps s e)"
    by (auto simp: literal_node_def split: if_splits)
  with ex show ?thesis by (cases v) simp_all
qed

lemma parseValue_ok_step:
  assumes pk: "\<forall>lx. I lx \<longrightarrow> ok_result I E (\<lambda>t. \<forall>tok. t = Some tok \<longrightarrow> T tok) (peek lx)"
    and nx: "\<forall>lx. I lx \<longrightarrow> ok_result I E (\<lambda>t. \<forall>tok. t = Some tok \<longrightarrow> T tok) (next_token lx)"
    and po: "\<forall>lx y. I lx \<longrightarrow> parseObjectLiteral n lx = Some y
                 \<longrightarrow> ok_result I (\<lambda>e. E e \<or> parser_error T e) (built_from T) y"
    and pa: "\<forall>lx y. I lx \<longrightarrow> parseArrayLiteral n lx = Some y
                 \<longrightarrow> ok_result I (\<lambda>e. E e \<or> parser_error T e) (built_from T) y"
    and i: "I lx" and run: "parseValue (Suc n) lx = Some r"
  shows "ok_result I (\<lambda>e. E e \<or> parser_error T e) (built_from T) r"
proof (rule ccontr)
  assume n: "\<not> ok_result I (\<lambda>e. E e \<or> parser_error T e) (built_from T) r"
  show False
  proof (rule bind_okE[OF run[unfolded parseValue.simps] peek_ok[OF pk i] n], goal_cases)
    case (1 t l1)
    from 1(4) n obtain token where t: "t = Some token" by (cases t) auto
    with 1(3) have tok: "T token" by simp
    show ?case
    proof (rule bind_okE[OF 1(4)[simplified t option.case] is_value_ok[OF pk 1(2)] n], goal_cases)
      case (1 b1 l2)
      from 1(4) 1(2) po n have b1: "\<not> b1" by (cases b1) auto
      show ?case
      proof (rule bind_okE[OF 1(4)[simplified b1 bool.case] is_value_ok[OF pk 1(2)] n], goal_cases)
        case (1 b2 l3)
        from 1(4) 1(2) pa n have b2: "\<not> b2" by (cases b2) auto
        note k = 1(4)[simplified b2 bool.case]
        show ?case
        proof (cases "literal_node token")
          case None
          with k n parser_error_token(1)[of T token, OF tok] show ?thesis by auto
        next
          case (Some v)
          from literal_node_built[of token v T, OF Some tok] have v: "built_from T v" .
          from k Some have e: "(case next_token l3 of Inl e \<Rightarrow> Some (Inl e)
              | Inr (x, l4) \<Rightarrow> Some (Inr (v, l4))) = Some r" by simp
          show ?thesis
          proof (rule bind_okE[OF e next_ok[OF nx 1(2)] n], goal_cases)
            case (1 x l4)
            with v n show ?case by auto
          qed
        qed
      qed
    qed
  qed
qed

lemma parser_ok_loops:
  assumes pk: "\<forall>lx. I lx \<longrightarrow> ok_result I E (\<lambda>t. \<forall>tok. t = Some tok \<longrightarrow> T tok) (peek lx)"
    and nx: "\<forall>lx. I lx \<longrightarrow> ok_result I E (\<lambda>t. \<forall>tok. t = Some tok \<longrightarrow> T tok) (next_token lx)"
  shows "(\<forall>lx y. I lx \<longrightarrow> parseValue n lx = Some y
            \<longrightarrow> ok_result I (\<lambda>e. E e \<or> parser_error T e) (built_from T) y)
       \<and> (\<forall>ps lx y. I lx \<longrightarrow> (\<forall>p\<in>set ps. T (p_key p)) \<longrightarrow> objectLoop n ps lx = Some y
            \<longrightarrow> ok_result I (\<lambda>e. E e \<or> parser_error T e) (\<lambda>ps. \<forall>p\<in>set ps. T (p_key p)) y)
       \<and> (\<forall>xs lx y. I lx \<longrightarrow> (\<forall>x\<in>set xs. built_from T x) \<longrightarrow> arrayLoop n xs lx = Some y
            \<longrightarrow> ok_result I (\<lambda>e. E e \<or> parser_error T e) (\<lambda>xs. \<forall>x\<in>set xs. built_from T x) y)"
proof (induction n)
  case 0
  show ?case by simp
next
  case (Suc n)
  then have pv: "\<forall>lx y. I lx \<longrightarrow> parseValue n lx = Some y
            \<longrightarrow> ok_result I (\<lambda>e. E e \<or> parser_error T e) (built_from T) y"
    and ol: "\<forall>ps lx y. I lx \<longrightarrow> (\<forall>p\<in>set ps. T (p_key p)) \<longrightarrow> objectLoop n ps lx = Some y
            \<longrightarrow> ok_result I (\<lambda>e. E e \<or> parser_error T e) (\<lambda>ps. \<forall>p\<in>set ps. T (p_key p)) y"
    and al: "\<forall>xs lx y. I lx \<longrightarrow> (\<forall>x\<in>set xs. built_from T x) \<longrightarrow> arrayLoop n xs lx = Some y
            \<longrightarrow> ok_result I (\<lambda>e. E e \<or> parser_error T e) (\<lambda>xs. \<forall>x\<in>set xs. built_from T x) y"
    by blast+
  have po: "\<forall>lx y. I lx \<longrightarrow> parseObjectLiteral n lx = Some y
            \<longrightarrow> ok_result I (\<lambda>e. E e \<or> parser_error T e) (built_from T) y"
    using parseObjectLiteral_ok[OF nx ol] by blast
  have pa: "\<forall>lx y. I lx \<longrightarrow> parseArrayLiteral n lx = Some y
            \<longrightarrow> ok_result I (\<lambda>e. E e \<or> parser_error T e) (built_from T) y"
    using parseArrayLiteral_ok[OF nx al] by blast
  show ?case
    using parseValue_ok_step[OF pk nx po pa] objectLoop_ok_step[OF pk nx pv ol]
      arrayLoop_ok_step[OF pk nx pv al]
    by blast
qed

lemma parseValue_ok:
  assumes pk: "\<forall>lx. I lx \<longrightarrow> ok_result I E (\<lambda>t. \<forall>tok. t = Some tok \<longrightarrow> T tok) (peek lx)"
    and nx: "\<forall>lx. I lx \<longrightarrow> ok_result I E (\<lambda>t. \<forall>tok. t = Some tok \<longrightarrow> T tok) (next_token lx)"
    and "I lx" and "parseValue n lx = Some r"
  shows "ok_result I (\<lambda>e. E e \<or> parser_error T e) (built_from T) r"
  using parser_ok_loops[OF pk nx, of n] assms(3,4) by blast

section \<open>The rounds of the object loop\<close>

lemma ensureType_type:
  "ensureType args lx = Inr (key, lx') \<Longrightarrow> t_type key \<in> set args"
  by (auto simp: ensureType_def list_ex_iff split: sum.splits prod.splits option.splits if_splits)


inductive_cases object_rounds_SucE: "object_rounds (Suc n) lx kvs l"

lemma object_rounds_unique:
  "object_rounds n lx kvs l \<Longrightarrow> object_rounds n lx kvs' l' \<Longrightarrow> kvs' = kvs \<and> l' = l"
proof (induction arbitrary: kvs' l' rule: object_rounds.induct)
  case (closing lx lx1 n)
  from closing.prems show ?case
    by (rule object_rounds_SucE) (use closing.hyps in simp_all)
next
  case (member_then_brace lx lx1 key lx2 colon lx3 n v lx4 lx5 kvs lx')
  from member_then_brace.prems show ?case
  proof (rule object_rounds_SucE, goal_cases)
    case 1
    with member_then_brace.hyps(1) show ?case by simp
  next
    case (2 lx1a keya lx2a colona lx3a va lx4a lx5a kvsa)
    from 2(2) member_then_brace.hyps(1) have e1: "lx1a = lx1" by simp
    from 2(3) member_then_brace.hyps(2) e1 have e2: "keya = key \<and> lx2a = lx2" by simp
    from 2(4) member_then_brace.hyps(3) e2 have e3: "lx3a = lx3" by simp
    from 2(5) member_then_brace.hyps(4) e3 have e4: "va = v \<and> lx4a = lx4" by simp
    from 2(6) member_then_brace.hyps(5) e4 have e5: "lx5a = lx5" by simp
    from 2(7) e5 have "object_rounds n lx5 kvsa l'" by simp
    from member_then_brace.IH[OF this] 2(1) e2 e4 show ?case by simp
  next
    case (3 lx1a keya lx2a colona lx3a va lx4a lx5a commaa lx6a kvsa)
    from 3(2) member_then_brace.hyps(1) have e1: "lx1a = lx1" by simp
    from 3(3) member_then_brace.hyps(2) e1 have e2: "keya = key \<and> lx2a = lx2" by simp
    from 3(4) member_then_brace.hyps(3) e2 have e3: "lx3a = lx3" by simp
    from 3(5) member_then_brace.hyps(4) e3 have e4: "va = v \<and> lx4a = lx4" by simp
    from 3(6) member_then_brace.hyps(5) e4 show ?case by simp
  qed
next
  case (member_then_comma lx lx1 key lx2 colon lx3 n v lx4 lx5 comma lx6 kvs lx')
  from member_then_comma.prems show ?case
  proof (rule object_rounds_SucE, goal_cases)
    case 1
    with member_then_comma.hyps(1) show ?case by simp
  next
    case (2 lx1a keya lx2a colona lx3a va lx4a lx5a kvsa)
    from 2(2) member_then_comma.hyps(1) have e1: "lx1a = lx1" by simp
    from 2(3) member_then_comma.hyps(2) e1 have e2: "keya = key \<and> lx2a = lx2" by simp
    from 2(4) member_then_comma.hyps(3) e2 have e3: "lx3a = lx3" by simp
    from 2(5) member_then_comma.hyps(4) e3 have e4: "va = v \<and> lx4a = lx4" by simp
    from 2(6) member_then_comma.hyps(5) e4 show ?case by simp
  next
    case (3 lx1a keya lx2a colona lx3a va lx4a lx5a commaa lx6a kvsa)
    from 3(2) member_then_comma.hyps(1) have e1: "lx1a = lx1" by simp
    from 3(3) member_then_comma.hyps(2) e1 have e2: "keya = key \<and> lx2a = lx2" by simp
    from 3(4) member_then_comma.hyps(3) e2 have e3: "lx3a = lx3" by simp
    from 3(5) member_then_comma.hyps(4) e3 have e4: "va = v \<and> lx4a = lx4" by simp
    from 3(6) member_then_comma.hyps(5) e4 have e5: "lx5a = lx5" by simp
    from 3(7) member_then_comma.hyps(6) e5 have e6: "lx6a = lx6" by simp
    from 3(8) e6 have "object_rounds n lx6 kvsa l'" by simp
    from member_then_comma.IH[OF this] 3(1) e2 e4 show ?case by simp
  qed
qed
lemma objectLoop_round:
  assumes "objectLoop (Suc n) props lx = Some (Inr (props', lx'))"
  shows "(is_value (str ''}'') lx = Inr (True, lx') \<and> props' = props)
       \<or> (\<exists>lx1 key lx2 colon lx3 v lx4 lx5.
             is_value (str ''}'') lx = Inr (False, lx1)
           \<and> ensureType [TOKEN_STRING, TOKEN_NUMBER] lx1 = Inr (key, lx2)
           \<and> ensure [str '':''] lx2 = Inr (colon, lx3)
           \<and> parseValue n lx3 = Some (Inr (v, lx4))
           \<and> is_value (str ''}'') lx4 = Inr (True, lx5)
           \<and> objectLoop n (props @ [Property key v (Some (t_start key)) (node_end v)]) lx5
                 = Some (Inr (props', lx')))
       \<or> (\<exists>lx1 key lx2 colon lx3 v lx4 lx5 comma lx6.
             is_value (str ''}'') lx = Inr (False, lx1)
           \<and> ensureType [TOKEN_STRING, TOKEN_NUMBER] lx1 = Inr (key, lx2)
           \<and> ensure [str '':''] lx2 = Inr (colon, lx3)
           \<and> parseValue n lx3 = Some (Inr (v, lx4))
           \<and> is_value (str ''}'') lx4 = Inr (False, lx5)
           \<and> ensure [str '',''] lx5 = Inr (comma, lx6)
           \<and> objectLoop n (props @ [Property key v (Some (t_start key)) (node_end v)]) lx6
                 = Some (Inr (props', lx')))"
  using assms
  by (simp split: sum.splits prod.splits bool.splits option.splits)

lemma objectLoop_rounds:
  "objectLoop n props lx = Some (Inr (props', lx')) \<Longrightarrow>
     \<exists>kvs. object_rounds n lx kvs lx'
       \<and> props' = props @ map (\<lambda>(key, v). Property key v (Some (t_start key)) (node_end v)) kvs
       \<and> list_all (\<lambda>(key, v). t_type key \<in> {TOKEN_STRING, TOKEN_NUMBER}) kvs"
proof (induction n arbitrary: props lx)
  case 0
  then show ?case by simp
next
  case (Suc n)
  let ?P = "\<lambda>key v. Property key v (Some (t_start key)) (node_end v)"
  from objectLoop_round[OF Suc.prems]
  consider
    (a) "is_value (str ''}'') lx = Inr (True, lx')" "props' = props"
  | (b) lx1 key lx2 colon lx3 v lx4 lx5 where
          "is_value (str ''}'') lx = Inr (False, lx1)"
          "ensureType [TOKEN_STRING, TOKEN_NUMBER] lx1 = Inr (key, lx2)"
          "ensure [str '':''] lx2 = Inr (colon, lx3)"
          "parseValue n lx3 = Some (Inr (v, lx4))"
          "is_value (str ''}'') lx4 = Inr (True, lx5)"
          "objectLoop n (props @ [?P key v]) lx5 = Some (Inr (props', lx'))"
  | (c) lx1 key lx2 colon lx3 v lx4 lx5 comma lx6 where
          "is_value (str ''}'') lx = Inr (False, lx1)"
          "ensureType [TOKEN_STRING, TOKEN_NUMBER] lx1 = Inr (key, lx2)"
          "ensure [str '':''] lx2 = Inr (colon, lx3)"
          "parseValue n lx3 = Some (Inr (v, lx4))"
          "is_value (str ''}'') lx4 = Inr (False, lx5)"
          "ensure [str '',''] lx5 = Inr (comma, lx6)"
          "objectLoop n (props @ [?P key v]) lx6 = Some (Inr (props', lx'))"
    by blast
  then show ?case
  proof cases
    case a
    from a(1) have "object_rounds (Suc n) lx [] lx'" by (rule object_rounds.closing)
    with a(2) show ?thesis by (intro exI[of _ "[]"]) simp
  next
    case b
    from Suc.IH[OF b(6)] obtain kvs where
      r: "object_rounds n lx5 kvs lx'" and
      p: "props' = (props @ [?P key v]) @ map (\<lambda>(key, v). ?P key v) kvs" and
      t: "list_all (\<lambda>(key, v). t_type key \<in> {TOKEN_STRING, TOKEN_NUMBER}) kvs"
      by blast
    from b(1-5) r have "object_rounds (Suc n) lx ((key, v) # kvs) lx'"
      by (rule object_rounds.member_then_brace)
    moreover from ensureType_type[OF b(2)] have "t_type key \<in> {TOKEN_STRING, TOKEN_NUMBER}"
      by simp
    ultimately show ?thesis using p t by (intro exI[of _ "(key, v) # kvs"]) simp
  next
    case c
    from Suc.IH[OF c(7)] obtain kvs where
      r: "object_rounds n lx6 kvs lx'" and
      p: "props' = (props @ [?P key v]) @ map (\<lambda>(key, v). ?P key v) kvs" and
      t: "list_all (\<lambda>(key, v). t_type key \<in> {TOKEN_STRING, TOKEN_NUMBER}) kvs"
      by blast
    from c(1-6) r have "object_rounds (Suc n) lx ((key, v) # kvs) lx'"
      by (rule object_rounds.member_then_comma)
    moreover from ensureType_type[OF c(2)] have "t_type key \<in> {TOKEN_STRING, TOKEN_NUMBER}"
      by simp
    ultimately show ?thesis using p t by (intro exI[of _ "(key, v) # kvs"]) simp
  qed
qed

lemma parseObjectLiteral_parts:
  assumes "parseObjectLiteral n lx = Some (Inr (node, lx'))"
  shows "\<exists>startToken lx1 ps lx2 endToken.
             ensure [str ''{''] lx = Inr (startToken, lx1)
           \<and> objectLoop n [] lx1 = Some (Inr (ps, lx2))
           \<and> ensure [str ''}''] lx2 = Inr (endToken, lx')
           \<and> node = ObjectLiteral ps (t_start startToken) (t_end endToken)"
  using assms
  by (simp split: sum.splits prod.splits option.splits)

lemma property_fields_of_pairs:
  "list_all (\<lambda>(key, v). t_type key \<in> {TOKEN_STRING, TOKEN_NUMBER}) kvs \<Longrightarrow>
   list_all2 (\<lambda>p (key, v). p_type p = ''Property'' \<and> p_key p = key
                 \<and> p_start p = Some (t_start key) \<and> p_end p = node_end v
                 \<and> t_type key \<in> {TOKEN_STRING, TOKEN_NUMBER})
     (map (\<lambda>(key, v). Property key v (Some (t_start key)) (node_end v)) kvs) kvs"
  by (induction kvs) (auto simp: Property_def p_type_def)

section \<open>The errors of a parse\<close>

lemma lex_grammar_error:
  "lex_grammar g lx = Inl e \<Longrightarrow>
     e = Error (str ''Unexpected token '' @ [39] @ char_at_text (source lx) (index lx) @ [39])"
  by (induction g lx rule: lex_grammar.induct) (auto simp: Let_def split: option.splits)

lemma lex_error:
  assumes "lex lx = Inl e"
  shows "e = Error (str ''Unexpected token '' @ [39]
                    @ char_at_text (source lx) (index (skipWhitespace lx)) @ [39])"
  using lex_grammar_error[of grammar "skipWhitespace lx" e] assms
  by (simp add: lex_def skipWhitespace_fields)

lemma lex_lexical_error:
  assumes "lex lx = Inl e"
  shows "lexical_error (source lx) e"
  unfolding lexical_error_def
  using lex_error[OF assms] skip_stops[of lx] by blast

lemma lexer_over_Lexer: "lexer_over src (Lexer src)"
  by (simp add: lexer_over_def Lexer_def)

lemma peek_over:
  assumes "lexer_over src lx"
  shows "ok_result (lexer_over src) (lexical_error src)
           (\<lambda>t. \<forall>tok. t = Some tok \<longrightarrow> lexed_from src tok) (peek lx)"
proof -
  from assms have s: "source lx = src" and st: "\<forall>t \<in> set (stash lx). lexed_from src t"
    by (simp_all add: lexer_over_def)
  show ?thesis
  proof (cases "hasEnded lx")
    case True
    have "stash lx \<noteq> [] \<Longrightarrow> lexed_from src (stash lx ! 0)"
      using st by (cases "stash lx") simp_all
    with True assms show ?thesis by (simp add: peek_def lookahead_def)
  next
    case False
    show ?thesis
    proof (cases "lex lx")
      case (Inl e)
      with False lex_lexical_error[OF Inl] s show ?thesis
        by (simp add: peek_def lookahead_def)
    next
      case (Inr a)
      obtain t l where a: "a = (t, l)" by (cases a)
      from Inr a have lx: "lex lx = Inr (t, l)" by simp
      from lex_keeps[OF lx] s have k: "stash l = stash lx" "source l = src" by simp_all
      from lx s have t: "lexed_from src t" unfolding lexed_from_def by blast
      have o: "lexer_over src (l\<lparr>stash := stash l @ [t]\<rparr>)"
        using k st t by (simp add: lexer_over_def)
      have h: "lexed_from src ((stash lx @ [t]) ! 0)"
        using st t by (cases "stash lx") simp_all
      from False lx o h k show ?thesis
        by (simp add: peek_def lookahead_def)
    qed
  qed
qed

lemma next_over:
  assumes "lexer_over src lx"
  shows "ok_result (lexer_over src) (lexical_error src)
           (\<lambda>t. \<forall>tok. t = Some tok \<longrightarrow> lexed_from src tok) (next_token lx)"
proof -
  from assms have s: "source lx = src" and st: "\<forall>t \<in> set (stash lx). lexed_from src t"
    by (simp_all add: lexer_over_def)
  show ?thesis
  proof (cases "stash lx")
    case (Cons t ts)
    with s st show ?thesis by (simp add: next_token_def lexer_over_def)
  next
    case Nil
    show ?thesis
    proof (cases "hasEnded lx")
      case True
      with Nil assms show ?thesis by (simp add: next_token_def)
    next
      case False
      show ?thesis
      proof (cases "lex lx")
        case (Inl e)
        with Nil False lex_lexical_error[OF Inl] s show ?thesis
          by (simp add: next_token_def)
      next
        case (Inr a)
        obtain t l where a: "a = (t, l)" by (cases a)
        from Inr a have lx: "lex lx = Inr (t, l)" by simp
        from lex_keeps[OF lx] s Nil have k: "stash l = []" "source l = src" by simp_all
        from lx s have t: "lexed_from src t" unfolding lexed_from_def by blast
        from k have o: "lexer_over src l" by (simp add: lexer_over_def)
        from Nil False lx o t show ?thesis
          by (simp add: next_token_def)
      qed
    qed
  qed
qed

lemma parseValue_over:
  assumes "lexer_over src lx" and "parseValue n lx = Some r"
  shows "ok_result (lexer_over src)
           (\<lambda>e. lexical_error src e \<or> parser_error (lexed_from src) e)
           (built_from (lexed_from src)) r"
proof -
  have pk: "\<forall>lx. lexer_over src lx \<longrightarrow>
     ok_result (lexer_over src) (lexical_error src)
       (\<lambda>t. \<forall>tok. t = Some tok \<longrightarrow> lexed_from src tok) (peek lx)"
    using peek_over by blast
  have nx: "\<forall>lx. lexer_over src lx \<longrightarrow>
     ok_result (lexer_over src) (lexical_error src)
       (\<lambda>t. \<forall>tok. t = Some tok \<longrightarrow> lexed_from src tok) (next_token lx)"
    using next_over by blast
  from parseValue_ok[of "lexer_over src" "lexical_error src" "lexed_from src", OF pk nx assms]
  show ?thesis .
qed


lemma parse_built_from:
  assumes "parse n src = Some (Inr node)"
  shows "built_from (lexed_from src) node"
proof -
  from assms obtain lx where r: "parseValue n (Lexer src) = Some (Inr (node, lx))"
    by (auto simp: parse_def split: option.splits sum.splits)
  from parseValue_over[OF lexer_over_Lexer r] show ?thesis by simp
qed

section \<open>Parsing the lexeme of a leaf again\<close>

lemma lex_grammar_token:
  "lex_grammar g lx = Inr (tok, lx') \<Longrightarrow>
     \<exists>ty u r. (ty, u, r) \<in> set g \<and> regex_match u r (input lx) = Some (t_value tok)
               \<and> t_type tok = ty"
proof (induction g lx rule: lex_grammar.induct)
  case (1 lx)
  then show ?case by simp
next
  case (2 ty u regex g lx)
  show ?case
  proof (cases "regex_match u regex (input lx)")
    case None
    with 2 show ?thesis by auto
  next
    case (Some x)
    with 2(2) have "t_value tok = x" "t_type tok = ty"
      by (auto simp: Let_def Token_def)
    with Some show ?thesis
      by (intro exI[of _ ty] exI[of _ u] exI[of _ regex]) simp
  qed
qed

lemma lex_token:
  assumes "lex lx = Inr (tok, lx')"
  shows "\<exists>s. (t_type tok = TOKEN_STRING \<longrightarrow> regex_match True S_STRING s = Some (t_value tok))
           \<and> (t_type tok = TOKEN_NUMBER \<longrightarrow> regex_match False S_NUMBER s = Some (t_value tok))
           \<and> (t_type tok = TOKEN_BOOLEAN \<longrightarrow> regex_match False S_BOOL s = Some (t_value tok))"
proof -
  from assms have "lex_grammar grammar (skipWhitespace lx) = Inr (tok, lx')"
    by (simp add: lex_def)
  from lex_grammar_token[OF this] obtain ty u r where
    g: "(ty, u, r) \<in> set grammar" and
    m: "regex_match u r (input (skipWhitespace lx)) = Some (t_value tok)" and
    t: "t_type tok = ty"
    by blast
  from g t m show ?thesis
    by (intro exI[of _ "input (skipWhitespace lx)"]) (auto simp: grammar_def)
qed

lemma in_Lit: "z \<in> set (matches False (Lit w) s) \<longleftrightarrow> s = w @ z"
proof (induction w arbitrary: s rule: Lit.induct)
  case 1
  show ?case by auto
next
  case (2 c)
  show ?case by (cases s) auto
next
  case (3 c d cs)
  show ?case
  proof (cases s)
    case Nil
    then show ?thesis by simp
  next
    case (Cons a t)
    with 3[of t] show ?thesis by auto
  qed
qed

lemma bool_match:
  assumes "regex_match False S_BOOL s = Some v"
  shows "v = str ''true'' \<or> v = str ''false''"
proof -
  from assms obtain z zs where m: "matches False S_BOOL s = z # zs" and s: "s = v @ z"
    unfolding regex_match_Some_iff by blast
  from m have "z \<in> set (matches False S_BOOL s)" by simp
  then have "z \<in> set (matches False (Lit (str ''true'')) s)
           \<or> z \<in> set (matches False (Lit (str ''false'')) s)"
    by (simp add: S_BOOL_def)
  then have "s = str ''true'' @ z \<or> s = str ''false'' @ z"
    unfolding in_Lit .
  with s show ?thesis by auto
qed

lemma parse_single_token:
  assumes "lex (Lexer v) = Inr (tok, \<lparr>index = length v, source = v, input = [], stash = []\<rparr>)"
    and "v \<noteq> []" and "t_value tok \<noteq> str ''{''" and "t_value tok \<noteq> str ''[''"
    and "literal_node tok = Some node"
  shows "parse (Suc m) v = Some (Inr node)"
proof -
  let ?L1 = "\<lparr>index = length v, source = v, input = [], stash = [tok]\<rparr>"
  from assms(2) have ne: "\<not> hasEnded (Lexer v)" by (simp add: hasEnded_def Lexer_def)
  have e1: "hasEnded ?L1" by (simp add: hasEnded_def)
  from ne assms(1) have p0: "peek (Lexer v) = Inr (Some tok, ?L1)"
    by (simp add: peek_def lookahead_def)
  from e1 have p1: "peek ?L1 = Inr (Some tok, ?L1)"
    by (simp add: peek_def lookahead_def)
  from p1 assms(3) have i1: "is_value (str ''{'') ?L1 = Inr (False, ?L1)"
    by (simp add: is_value_def)
  from p1 assms(4) have i2: "is_value (str ''['') ?L1 = Inr (False, ?L1)"
    by (simp add: is_value_def)
  have n: "next_token ?L1 = Inr (Some tok, \<lparr>index = length v, source = v, input = [], stash = []\<rparr>)"
    by (simp add: next_token_def)
  show ?thesis
    by (simp add: parse_def p0 i1 i2 n assms(5))
qed

lemma literal_node_value:
  assumes "literal_node tok = Some leaf" and "literal_value leaf = Some v"
  shows "v = t_value tok \<and>
         (t_type tok = TOKEN_STRING \<and> node_type leaf = ''StringLiteral''
        \<or> t_type tok = TOKEN_NUMBER \<and> node_type leaf = ''NumericLiteral''
        \<or> t_type tok = TOKEN_BOOLEAN \<and> node_type leaf = ''BooleanLiteral'')"
  using assms by (auto simp: literal_node_def split: if_splits)

lemma token_reparses:
  assumes "lex lx = Inr (tok, lx')" and "literal_node tok = Some leaf"
    and "literal_value leaf = Some v"
  shows "\<exists>leaf'. parse (Suc m) v = Some (Inr leaf') \<and> node_type leaf' = node_type leaf
            \<and> literal_value leaf' = Some v"
proof -
  from literal_node_value[OF assms(2,3)] have v: "v = t_value tok" and
    k: "t_type tok = TOKEN_STRING \<and> node_type leaf = ''StringLiteral''
        \<or> t_type tok = TOKEN_NUMBER \<and> node_type leaf = ''NumericLiteral''
        \<or> t_type tok = TOKEN_BOOLEAN \<and> node_type leaf = ''BooleanLiteral''"
    by simp_all
  from lex_token[OF assms(1)] obtain s where
    ms: "t_type tok = TOKEN_STRING \<longrightarrow> regex_match True S_STRING s = Some (t_value tok)" and
    mn: "t_type tok = TOKEN_NUMBER \<longrightarrow> regex_match False S_NUMBER s = Some (t_value tok)" and
    mb: "t_type tok = TOKEN_BOOLEAN \<longrightarrow> regex_match False S_BOOL s = Some (t_value tok)"
    by blast
  from k consider
      (string) "t_type tok = TOKEN_STRING" "node_type leaf = ''StringLiteral''"
    | (number) "t_type tok = TOKEN_NUMBER" "node_type leaf = ''NumericLiteral''"
    | (boolean) "t_type tok = TOKEN_BOOLEAN" "node_type leaf = ''BooleanLiteral''"
    by blast
  then show ?thesis
  proof cases
    case string
    with ms v have "regex_match True S_STRING s = Some v" by simp
    then have sp: "spec_string v" by (rule regex_match_string)
    then obtain body where b: "v = 34 # body @ [34]" unfolding spec_string_def by blast
    have "parse (Suc m) v = Some (Inr (StringLiteral v 0 (length v)))"
    proof (rule parse_single_token[OF lex_string_alone[OF sp]])
      show "v \<noteq> []" using b by simp
      show "t_value (Token TOKEN_STRING v 0) \<noteq> str ''{''" using b by (simp add: Token_def str_def)
      show "t_value (Token TOKEN_STRING v 0) \<noteq> str ''[''" using b by (simp add: Token_def str_def)
      show "literal_node (Token TOKEN_STRING v 0) = Some (StringLiteral v 0 (length v))"
        by (simp add: literal_node_def Token_def)
    qed
    with string(2) show ?thesis by simp
  next
    case number
    with mn v have "regex_match False S_NUMBER s = Some v" by simp
    then have sp: "spec_number v" by (rule regex_match_number)
    from spec_number_hd[OF sp] have h: "v \<noteq> []" "is_digit (hd v) \<or> hd v = 45 \<or> hd v = 46"
      by simp_all
    have "parse (Suc m) v = Some (Inr (NumericLiteral v 0 (length v)))"
    proof (rule parse_single_token[OF lex_number_alone[OF sp]])
      show "v \<noteq> []" by (rule h(1))
      show "t_value (Token TOKEN_NUMBER v 0) \<noteq> str ''{''"
        using h by (auto simp: Token_def str_def is_digit_def)
      show "t_value (Token TOKEN_NUMBER v 0) \<noteq> str ''[''"
        using h by (auto simp: Token_def str_def is_digit_def)
      show "literal_node (Token TOKEN_NUMBER v 0) = Some (NumericLiteral v 0 (length v))"
        by (simp add: literal_node_def Token_def)
    qed
    with number(2) show ?thesis by simp
  next
    case boolean
    with mb v have "regex_match False S_BOOL s = Some v" by simp
    from bool_match[OF this] show ?thesis
    proof
      assume t: "v = str ''true''"
      have "parse (Suc m) (str ''true'') = Some (Inr (BooleanLiteral (str ''true'') 0 4))"
        by (simp add: lexer_eval parser_eval cong: weak_case_cong)
      with t boolean(2) show ?thesis by simp
    next
      assume f: "v = str ''false''"
      have "parse (Suc m) (str ''false'') = Some (Inr (BooleanLiteral (str ''false'') 0 5))"
        by (simp add: lexer_eval parser_eval cong: weak_case_cong)
      with f boolean(2) show ?thesis by simp
    qed
  qed
qed

lemma built_from_subnodes:
  "built_from T root \<Longrightarrow> leaf \<in> set (subnodes root) \<Longrightarrow> built_from T leaf"
  by (induction root rule: subnodes.induct) auto

lemma built_from_leaf:
  assumes "built_from T leaf" and "literal_value leaf = Some v"
  shows "\<exists>tok. T tok \<and> literal_node tok = Some leaf"
  using assms by (cases leaf) simp_all

lemma built_leaf_reparses:
  assumes "built_from (lexed_from src) root" and "leaf \<in> set (subnodes root)"
    and "literal_value leaf = Some v"
  shows "\<exists>leaf'. parse (Suc m) v = Some (Inr leaf') \<and> node_type leaf' = node_type leaf
            \<and> literal_value leaf' = Some v"
proof -
  from built_from_leaf[OF built_from_subnodes[OF assms(1,2)] assms(3)]
  obtain tok where t: "lexed_from src tok" and l: "literal_node tok = Some leaf" by blast
  from t obtain lx lx' where "lex lx = Inr (tok, lx')" unfolding lexed_from_def by blast
  from token_reparses[OF this l assms(3)] show ?thesis .
qed

section \<open>The parser on the tokens of the input\<close>

lemma skipWhitespace_stash:
  "skipWhitespace (lx\<lparr>stash := s\<rparr>) = (skipWhitespace lx)\<lparr>stash := s\<rparr>"
  by (simp add: skipWhitespace_eq forward_def)

lemma lex_grammar_stash:
  "lex_grammar g (lx\<lparr>stash := s\<rparr>)
     = (case lex_grammar g lx of Inl e \<Rightarrow> Inl e | Inr (t, l) \<Rightarrow> Inr (t, l\<lparr>stash := s\<rparr>))"
proof (induction g lx rule: lex_grammar.induct)
  case (1 lx)
  show ?case by simp
next
  case (2 ty u regex g lx)
  show ?case
  proof (cases "regex_match u regex (input lx)")
    case None
    with 2 show ?thesis by simp
  next
    case (Some m)
    then show ?thesis
      by (simp add: Let_def skipWhitespace_eq forward_def Token_def)
  qed
qed

lemma lex_stash:
  "lex (lx\<lparr>stash := s\<rparr>)
     = (case lex lx of Inl e \<Rightarrow> Inl e | Inr (t, l) \<Rightarrow> Inr (t, l\<lparr>stash := s\<rparr>))"
  by (simp add: lex_def skipWhitespace_stash lex_grammar_stash)

lemma hasEnded_stash [simp]: "hasEnded (lx\<lparr>stash := s\<rparr>) = hasEnded lx"
  by (simp add: hasEnded_def)

lemma lexer_all_nil_iff:
  "lexer_all lx [] \<longleftrightarrow> stash lx = [] \<and> hasEnded lx"
proof
  assume "lexer_all lx []"
  then obtain lx' where "next_token lx = Inr (None, lx')"
    by (cases rule: lexer_all.cases) auto
  then show "stash lx = [] \<and> hasEnded lx"
    by (auto simp: next_token_def split: if_splits sum.splits)
next
  assume "stash lx = [] \<and> hasEnded lx"
  then have "next_token lx = Inr (None, lx)" by (simp add: next_token_def)
  then show "lexer_all lx []" by (rule lexer_all.all_done)
qed

lemma lexer_all_Cons_iff:
  "lexer_all lx (t # ts) \<longleftrightarrow> (\<exists>lx'. next_token lx = Inr (Some t, lx') \<and> lexer_all lx' ts)"
proof
  assume "lexer_all lx (t # ts)"
  then show "\<exists>lx'. next_token lx = Inr (Some t, lx') \<and> lexer_all lx' ts"
    by (cases rule: lexer_all.cases) auto
next
  assume "\<exists>lx'. next_token lx = Inr (Some t, lx') \<and> lexer_all lx' ts"
  then show "lexer_all lx (t # ts)" using lexer_all.all_more by blast
qed

lemma lexer_all_stashed:
  "lexer_all (lx\<lparr>stash := s @ stash lx\<rparr>) ts \<longleftrightarrow> (\<exists>r. ts = s @ r \<and> lexer_all lx r)"
proof (induction s arbitrary: ts)
  case Nil
  show ?case by simp
next
  case (Cons a s)
  have n: "next_token (lx\<lparr>stash := (a # s) @ stash lx\<rparr>)
             = Inr (Some a, lx\<lparr>stash := s @ stash lx\<rparr>)"
    by (simp add: next_token_def)
  show ?case
  proof (cases ts)
    case Nil
    then show ?thesis by (simp add: lexer_all_nil_iff)
  next
    case (Cons b us)
    show ?thesis
      unfolding Cons lexer_all_Cons_iff n using Cons.IH[of us] by auto
  qed
qed

lemma lexer_all_stash:
  "lexer_all lx ts \<longleftrightarrow> (\<exists>r. ts = stash lx @ r \<and> lexer_all (lx\<lparr>stash := []\<rparr>) r)"
  using lexer_all_stashed[where lx = "lx\<lparr>stash := []\<rparr>" and s = "stash lx" and ts = ts] by simp

lemma lexer_all_push:
  assumes "lexer_all lx ts" and "stash lx = []"
  shows "lexer_all (lx\<lparr>stash := s\<rparr>) (s @ ts)"
  using lexer_all_stashed[where lx = lx and s = s and ts = "s @ ts"] assms by simp

lemma peek_tokens:
  assumes "lexer_all lx (t # ts)"
  shows "\<exists>lx'. peek lx = Inr (Some t, lx') \<and> lexer_all lx' (t # ts)"
proof -
  from assms obtain r where r: "t # ts = stash lx @ r" and a: "lexer_all (lx\<lparr>stash := []\<rparr>) r"
    using lexer_all_stash by blast
  show ?thesis
  proof (cases "hasEnded lx")
    case True
    with a have "r = []" by (cases r) (auto simp: lexer_all_Cons_iff next_token_def)
    with r have s: "stash lx = t # ts" by simp
    with True assms show ?thesis by (simp add: peek_def lookahead_def)
  next
    case False
    with a obtain t' r' l' where l: "lex (lx\<lparr>stash := []\<rparr>) = Inr (t', l')" and
      r': "r = t' # r'" and a': "lexer_all l' r'"
      by (cases r) (auto simp: lexer_all_nil_iff lexer_all_Cons_iff next_token_def
                         split: sum.splits)
    from lex_keeps(1)[OF l] have e: "stash l' = []" by simp
    from lex_stash[where lx = "lx\<lparr>stash := []\<rparr>" and s = "stash lx"] l
    have lx: "lex lx = Inr (t', l'\<lparr>stash := stash lx\<rparr>)" by simp
    from lexer_all_push[OF a' e, of "stash lx @ [t']"] r r'
    have v: "lexer_all (l'\<lparr>stash := stash lx @ [t']\<rparr>) (t # ts)" by simp
    from r r' have h: "(stash lx @ [t']) ! 0 = t" by (cases "stash lx") simp_all
    from False lx v h show ?thesis by (simp add: peek_def lookahead_def)
  qed
qed

lemma peek_no_tokens:
  assumes "lexer_all lx []"
  shows "peek lx = Inr (None, lx)"
  using assms by (simp add: lexer_all_nil_iff peek_def lookahead_def)

lemma is_value_tokens:
  assumes "lexer_all lx (t # ts)"
  shows "\<exists>lx'. is_value v lx = Inr (t_value t = v, lx') \<and> lexer_all lx' (t # ts)"
  using peek_tokens[OF assms] by (auto simp: is_value_def)

lemma is_value_no_tokens:
  assumes "lexer_all lx []"
  shows "is_value v lx = Inl TypeError_null"
  using peek_no_tokens[OF assms] by (simp add: is_value_def)

lemma ensure_tokens:
  assumes "lexer_all lx (t # ts)" and "t_value t = v"
  shows "\<exists>lx'. ensure [v] lx = Inr (t, lx') \<and> lexer_all lx' ts"
  using assms by (auto simp: lexer_all_Cons_iff ensure_def)

lemma ensure_no_tokens:
  assumes "lexer_all lx []"
  shows "ensure args lx = Inl TypeError_undefined"
  using assms by (simp add: lexer_all_nil_iff ensure_def next_token_def)

lemma ensureType_tokens:
  assumes "lexer_all lx (t # ts)" and "t_type t \<in> set kinds"
  shows "\<exists>lx'. ensureType kinds lx = Inr (t, lx') \<and> lexer_all lx' ts"
  using assms by (auto simp: lexer_all_Cons_iff ensureType_def list_ex_iff)

lemma ensureType_no_tokens:
  assumes "lexer_all lx []"
  shows "ensureType kinds lx = Inl TypeError_undefined"
  using assms by (simp add: lexer_all_nil_iff ensureType_def next_token_def)

lemma structural_simps [simp]:
  "structural (str ''{'')" "structural (str ''}'')" "structural (str ''['')"
  "structural (str '']'')" "structural (str '','')" "structural (str '':'')"
  by (simp_all add: structural_def str_def)

lemma str_brackets [simp]:
  "str ''['' \<noteq> str ''{''" "str ''['' \<noteq> str '']''" "str ''{'' \<noteq> str ''}''"
  "str '','' \<noteq> str '']''" "str '','' \<noteq> str ''}''" "str ''['' \<noteq> str ''}''"
  "str ''{'' \<noteq> str '']''" "str ''{'' \<noteq> str ''[''"
  by (simp_all add: str_def)

lemma literal_node_kinds:
  "literal_node t \<noteq> None \<longleftrightarrow> t_type t \<noteq> TOKEN_PUNCTUATOR"
  by (cases "t_type t") (simp_all add: literal_node_def)

lemma plain_literal:
  assumes "plain_token t" and "literal_node t \<noteq> None"
  shows "t_value t \<noteq> str ''{''" "t_value t \<noteq> str ''[''" "t_value t \<noteq> str '']''"
    "t_value t \<noteq> str ''}''"
  using assms structural_simps unfolding plain_token_def literal_node_kinds by auto

lemma value_tokens_first:
  assumes "value_tokens v" and "list_all plain_token v"
  shows "\<exists>t r. v = t # r \<and> t_value t \<noteq> str '']'' \<and> t_value t \<noteq> str ''}''"
  using assms
proof (cases rule: value_tokens.cases)
  case (literal t)
  with assms(2) plain_literal[of t] show ?thesis by simp
next
  case (array a es c)
  then show ?thesis by simp
next
  case (object a ms c)
  then show ?thesis by simp
qed

lemma literal_parses:
  assumes "literal_node t \<noteq> None" and "plain_token t"
  shows "value_parses (Suc 0) [t]"
  unfolding value_parses_def
proof (intro allI impI)
  fix n lx rest
  assume n: "Suc 0 \<le> n" and a: "lexer_all lx ([t] @ rest)"
  from n obtain m where m: "n = Suc m" by (cases n) simp_all
  from assms(1) obtain node where node: "literal_node t = Some node" by blast
  from a have a0: "lexer_all lx (t # rest)" by simp
  from peek_tokens[OF a0] obtain l1 where
    p: "peek lx = Inr (Some t, l1)" and a1: "lexer_all l1 (t # rest)" by blast
  from is_value_tokens[OF a1, of "str ''{''"] plain_literal(1)[OF assms(2,1)] obtain l2 where
    i1: "is_value (str ''{'') l1 = Inr (False, l2)" and a2: "lexer_all l2 (t # rest)" by auto
  from is_value_tokens[OF a2, of "str ''[''"] plain_literal(2)[OF assms(2,1)] obtain l3 where
    i2: "is_value (str ''['') l2 = Inr (False, l3)" and a3: "lexer_all l3 (t # rest)" by auto
  from a3 obtain l4 where nx: "next_token l3 = Inr (Some t, l4)" and a4: "lexer_all l4 rest"
    unfolding lexer_all_Cons_iff by blast
  have "parseValue (Suc m) lx = Some (Inr (node, l4))"
    by (simp add: p i1 i2 node nx)
  with a4 m show "\<exists>node lx'. parseValue n lx = Some (Inr (node, lx')) \<and> lexer_all lx' rest"
    by blast
qed

lemma array_parses:
  assumes "t_value a = str ''[''" and "elements_parse N es" and "t_value c = str '']''"
  shows "value_parses (Suc N) (a # es @ [c])"
  unfolding value_parses_def
proof (intro allI impI)
  fix n lx rest
  assume n: "Suc N \<le> n" and a: "lexer_all lx ((a # es @ [c]) @ rest)"
  from n obtain m where m: "n = Suc m" and mN: "N \<le> m" by (cases n) simp_all
  from a have a0: "lexer_all lx (a # es @ c # rest)" by simp
  from peek_tokens[OF a0] obtain l1 where
    p: "peek lx = Inr (Some a, l1)" and a1: "lexer_all l1 (a # es @ c # rest)" by blast
  from is_value_tokens[OF a1, of "str ''{''"] assms(1) obtain l2 where
    i1: "is_value (str ''{'') l1 = Inr (False, l2)" and a2: "lexer_all l2 (a # es @ c # rest)"
    by auto
  from is_value_tokens[OF a2, of "str ''[''"] assms(1) obtain l3 where
    i2: "is_value (str ''['') l2 = Inr (True, l3)" and a3: "lexer_all l3 (a # es @ c # rest)"
    by auto
  from ensure_tokens[OF a3 assms(1)] obtain l4 where
    e1: "ensure [str ''[''] l3 = Inr (a, l4)" and a4: "lexer_all l4 (es @ c # rest)" by blast
  from assms(2) mN a4 assms(3) obtain acc' l5 where
    lp: "arrayLoop m [] l4 = Some (Inr (acc', l5))" and a5: "lexer_all l5 (c # rest)"
    unfolding elements_parse_def by blast
  from ensure_tokens[OF a5 assms(3)] obtain l6 where
    e2: "ensure [str '']''] l5 = Inr (c, l6)" and a6: "lexer_all l6 rest" by blast
  have "parseValue (Suc m) lx = Some (Inr (ArrayLiteral acc' (t_start a) (t_end c), l6))"
    by (simp add: p i1 i2 e1 lp e2)
  with a6 m show "\<exists>node lx'. parseValue n lx = Some (Inr (node, lx')) \<and> lexer_all lx' rest"
    by blast
qed

lemma object_parses:
  assumes "t_value a = str ''{''" and "members_parse N ms" and "t_value c = str ''}''"
  shows "value_parses (Suc N) (a # ms @ [c])"
  unfolding value_parses_def
proof (intro allI impI)
  fix n lx rest
  assume n: "Suc N \<le> n" and a: "lexer_all lx ((a # ms @ [c]) @ rest)"
  from n obtain m where m: "n = Suc m" and mN: "N \<le> m" by (cases n) simp_all
  from a have a0: "lexer_all lx (a # ms @ c # rest)" by simp
  from peek_tokens[OF a0] obtain l1 where
    p: "peek lx = Inr (Some a, l1)" and a1: "lexer_all l1 (a # ms @ c # rest)" by blast
  from is_value_tokens[OF a1, of "str ''{''"] assms(1) obtain l2 where
    i1: "is_value (str ''{'') l1 = Inr (True, l2)" and a2: "lexer_all l2 (a # ms @ c # rest)"
    by auto
  from ensure_tokens[OF a2 assms(1)] obtain l4 where
    e1: "ensure [str ''{''] l2 = Inr (a, l4)" and a4: "lexer_all l4 (ms @ c # rest)" by blast
  from assms(2) mN a4 assms(3) obtain acc' l5 where
    lp: "objectLoop m [] l4 = Some (Inr (acc', l5))" and a5: "lexer_all l5 (c # rest)"
    unfolding members_parse_def by blast
  from ensure_tokens[OF a5 assms(3)] obtain l6 where
    e2: "ensure [str ''}''] l5 = Inr (c, l6)" and a6: "lexer_all l6 rest" by blast
  have "parseValue (Suc m) lx = Some (Inr (ObjectLiteral acc' (t_start a) (t_end c), l6))"
    by (simp add: p i1 e1 lp e2)
  with a6 m show "\<exists>node lx'. parseValue n lx = Some (Inr (node, lx')) \<and> lexer_all lx' rest"
    by blast
qed

lemma no_elements_parse: "elements_parse (Suc 0) []"
  unfolding elements_parse_def
proof (intro allI impI)
  fix n lx c rest and acc :: "node list"
  assume n: "Suc 0 \<le> n" and a: "lexer_all lx ([] @ c # rest)" and c: "t_value c = str '']''"
  from n obtain m where m: "n = Suc m" by (cases n) simp_all
  from a have a0: "lexer_all lx (c # rest)" by simp
  from is_value_tokens[OF a0, of "str '']''"] c obtain l1 where
    i: "is_value (str '']'') lx = Inr (True, l1)" and a1: "lexer_all l1 (c # rest)" by auto
  have "arrayLoop (Suc m) acc lx = Some (Inr (acc, l1))" by (simp add: i)
  with a1 m show "\<exists>acc' lx'. arrayLoop n acc lx = Some (Inr (acc', lx')) \<and> lexer_all lx' (c # rest)"
    by blast
qed

lemma last_element_parses:
  assumes "value_tokens v" and "list_all plain_token v" and "value_parses N v"
  shows "elements_parse (Suc (Suc N)) v"
  unfolding elements_parse_def
proof (intro allI impI)
  fix n lx c rest and acc :: "node list"
  assume n: "Suc (Suc N) \<le> n" and a: "lexer_all lx (v @ c # rest)" and c: "t_value c = str '']''"
  from n obtain m where m: "n = Suc m" and mN: "N \<le> m" and m1: "Suc 0 \<le> m"
    by (cases n) simp_all
  from m1 obtain m' where m': "m = Suc m'" by (cases m) simp_all
  from value_tokens_first[OF assms(1,2)] obtain t r where
    v: "v = t # r" and t: "t_value t \<noteq> str '']''" by blast
  from a v have a0: "lexer_all lx (t # r @ c # rest)" by simp
  from is_value_tokens[OF a0, of "str '']''"] t obtain l1 where
    i: "is_value (str '']'') lx = Inr (False, l1)" and a1: "lexer_all l1 (t # r @ c # rest)"
    by auto
  from a1 v have "lexer_all l1 (v @ c # rest)" by simp
  with assms(3) mN obtain node l2 where
    pv: "parseValue m l1 = Some (Inr (node, l2))" and a2: "lexer_all l2 (c # rest)"
    unfolding value_parses_def by blast
  from is_value_tokens[OF a2, of "str '']''"] c obtain l3 where
    i2: "is_value (str '']'') l2 = Inr (True, l3)" and a3: "lexer_all l3 (c # rest)" by auto
  from is_value_tokens[OF a3, of "str '']''"] c obtain l4 where
    i3: "is_value (str '']'') l3 = Inr (True, l4)" and a4: "lexer_all l4 (c # rest)" by auto
  have "arrayLoop (Suc m') (acc @ [node]) l3 = Some (Inr (acc @ [node], l4))"
    by (simp add: i3)
  with m' have lp: "arrayLoop m (acc @ [node]) l3 = Some (Inr (acc @ [node], l4))" by simp
  have "arrayLoop (Suc m) acc lx = Some (Inr (acc @ [node], l4))"
    by (simp add: i pv i2 lp)
  with a4 m show "\<exists>acc' lx'. arrayLoop n acc lx = Some (Inr (acc', lx')) \<and> lexer_all lx' (c # rest)"
    by blast
qed

lemma element_comma_parses:
  assumes "value_tokens v" and "list_all plain_token v" and "value_parses N1 v"
    and "t_value k = str '',''" and "elements_parse N2 es"
  shows "elements_parse (Suc (max N1 N2)) (v @ k # es)"
  unfolding elements_parse_def
proof (intro allI impI)
  fix n lx c rest and acc :: "node list"
  assume n: "Suc (max N1 N2) \<le> n" and a: "lexer_all lx ((v @ k # es) @ c # rest)"
    and c: "t_value c = str '']''"
  from n obtain m where m: "n = Suc m" and m1: "N1 \<le> m" and m2: "N2 \<le> m"
    by (cases n) simp_all
  from value_tokens_first[OF assms(1,2)] obtain t r where
    v: "v = t # r" and t: "t_value t \<noteq> str '']''" by blast
  from a v have a0: "lexer_all lx (t # r @ k # es @ c # rest)" by simp
  from is_value_tokens[OF a0, of "str '']''"] t obtain l1 where
    i: "is_value (str '']'') lx = Inr (False, l1)"
    and a1: "lexer_all l1 (t # r @ k # es @ c # rest)"
    by auto
  from a1 v have "lexer_all l1 (v @ k # es @ c # rest)" by simp
  with assms(3) m1 obtain node l2 where
    pv: "parseValue m l1 = Some (Inr (node, l2))" and a2: "lexer_all l2 (k # es @ c # rest)"
    unfolding value_parses_def by blast
  from is_value_tokens[OF a2, of "str '']''"] assms(4) obtain l3 where
    i2: "is_value (str '']'') l2 = Inr (False, l3)" and a3: "lexer_all l3 (k # es @ c # rest)"
    by auto
  from ensure_tokens[OF a3 assms(4)] obtain l4 where
    e: "ensure [str '',''] l3 = Inr (k, l4)" and a4: "lexer_all l4 (es @ c # rest)" by blast
  from assms(5) m2 a4 c obtain acc' l5 where
    lp: "arrayLoop m (acc @ [node]) l4 = Some (Inr (acc', l5))" and a5: "lexer_all l5 (c # rest)"
    unfolding elements_parse_def by blast
  have "arrayLoop (Suc m) acc lx = Some (Inr (acc', l5))"
    by (simp add: i pv i2 e lp)
  with a5 m show "\<exists>acc' lx'. arrayLoop n acc lx = Some (Inr (acc', lx')) \<and> lexer_all lx' (c # rest)"
    by blast
qed

lemma no_members_parse: "members_parse (Suc 0) []"
  unfolding members_parse_def
proof (intro allI impI)
  fix n lx c rest and acc :: "property list"
  assume n: "Suc 0 \<le> n" and a: "lexer_all lx ([] @ c # rest)" and c: "t_value c = str ''}''"
  from n obtain m where m: "n = Suc m" by (cases n) simp_all
  from a have a0: "lexer_all lx (c # rest)" by simp
  from is_value_tokens[OF a0, of "str ''}''"] c obtain l1 where
    i: "is_value (str ''}'') lx = Inr (True, l1)" and a1: "lexer_all l1 (c # rest)" by auto
  have "objectLoop (Suc m) acc lx = Some (Inr (acc, l1))" by (simp add: i)
  with a1 m show "\<exists>acc' lx'. objectLoop n acc lx = Some (Inr (acc', lx')) \<and> lexer_all lx' (c # rest)"
    by blast
qed

lemma key_not_brace:
  assumes "t_type key \<in> {TOKEN_STRING, TOKEN_NUMBER}" and "plain_token key"
  shows "t_value key \<noteq> str ''}''"
  using assms structural_simps unfolding plain_token_def by auto

lemma last_member_parses:
  assumes "t_type key \<in> {TOKEN_STRING, TOKEN_NUMBER}" and "plain_token key"
    and "t_value colon = str '':''" and "value_parses N v"
  shows "members_parse (Suc (Suc N)) (key # colon # v)"
  unfolding members_parse_def
proof (intro allI impI)
  fix n lx c rest and acc :: "property list"
  assume n: "Suc (Suc N) \<le> n" and a: "lexer_all lx ((key # colon # v) @ c # rest)"
    and c: "t_value c = str ''}''"
  from n obtain m where m: "n = Suc m" and mN: "N \<le> m" and m1: "Suc 0 \<le> m"
    by (cases n) simp_all
  from m1 obtain m' where m': "m = Suc m'" by (cases m) simp_all
  from a have a0: "lexer_all lx (key # colon # v @ c # rest)" by simp
  from is_value_tokens[OF a0, of "str ''}''"] key_not_brace[OF assms(1,2)] obtain l1 where
    i: "is_value (str ''}'') lx = Inr (False, l1)"
    and a1: "lexer_all l1 (key # colon # v @ c # rest)"
    by auto
  from assms(1) have kt: "t_type key \<in> set [TOKEN_STRING, TOKEN_NUMBER]" by simp
  from ensureType_tokens[OF a1 kt] obtain l2 where
    k: "ensureType [TOKEN_STRING, TOKEN_NUMBER] l1 = Inr (key, l2)"
    and a2: "lexer_all l2 (colon # v @ c # rest)" by blast
  from ensure_tokens[OF a2 assms(3)] obtain l3 where
    e: "ensure [str '':''] l2 = Inr (colon, l3)" and a3: "lexer_all l3 (v @ c # rest)" by blast
  from assms(4) mN a3 obtain node l4 where
    pv: "parseValue m l3 = Some (Inr (node, l4))" and a4: "lexer_all l4 (c # rest)"
    unfolding value_parses_def by blast
  from is_value_tokens[OF a4, of "str ''}''"] c obtain l5 where
    i2: "is_value (str ''}'') l4 = Inr (True, l5)" and a5: "lexer_all l5 (c # rest)" by auto
  from is_value_tokens[OF a5, of "str ''}''"] c obtain l6 where
    i3: "is_value (str ''}'') l5 = Inr (True, l6)" and a6: "lexer_all l6 (c # rest)" by auto
  let ?acc = "acc @ [Property key node (Some (t_start key)) (node_end node)]"
  have "objectLoop (Suc m') ?acc l5 = Some (Inr (?acc, l6))"
    by (simp add: i3)
  with m' have lp: "objectLoop m ?acc l5 = Some (Inr (?acc, l6))" by simp
  have "objectLoop (Suc m) acc lx = Some (Inr (?acc, l6))"
    by (simp add: i k e pv i2 lp)
  with a6 m show "\<exists>acc' lx'. objectLoop n acc lx = Some (Inr (acc', lx')) \<and> lexer_all lx' (c # rest)"
    by blast
qed

lemma member_comma_parses:
  assumes "t_type key \<in> {TOKEN_STRING, TOKEN_NUMBER}" and "plain_token key"
    and "t_value colon = str '':''" and "value_parses N1 v"
    and "t_value k = str '',''" and "members_parse N2 ms"
  shows "members_parse (Suc (max N1 N2)) (key # colon # v @ k # ms)"
  unfolding members_parse_def
proof (intro allI impI)
  fix n lx c rest and acc :: "property list"
  assume n: "Suc (max N1 N2) \<le> n" and a: "lexer_all lx ((key # colon # v @ k # ms) @ c # rest)"
    and c: "t_value c = str ''}''"
  from n obtain m where m: "n = Suc m" and m1: "N1 \<le> m" and m2: "N2 \<le> m"
    by (cases n) simp_all
  from a have a0: "lexer_all lx (key # colon # v @ k # ms @ c # rest)" by simp
  from is_value_tokens[OF a0, of "str ''}''"] key_not_brace[OF assms(1,2)] obtain l1 where
    i: "is_value (str ''}'') lx = Inr (False, l1)"
    and a1: "lexer_all l1 (key # colon # v @ k # ms @ c # rest)"
    by auto
  from assms(1) have kt: "t_type key \<in> set [TOKEN_STRING, TOKEN_NUMBER]" by simp
  from ensureType_tokens[OF a1 kt] obtain l2 where
    ky: "ensureType [TOKEN_STRING, TOKEN_NUMBER] l1 = Inr (key, l2)"
    and a2: "lexer_all l2 (colon # v @ k # ms @ c # rest)" by blast
  from ensure_tokens[OF a2 assms(3)] obtain l3 where
    e: "ensure [str '':''] l2 = Inr (colon, l3)" and a3: "lexer_all l3 (v @ k # ms @ c # rest)"
    by blast
  from assms(4) m1 a3 obtain node l4 where
    pv: "parseValue m l3 = Some (Inr (node, l4))" and a4: "lexer_all l4 (k # ms @ c # rest)"
    unfolding value_parses_def by blast
  from is_value_tokens[OF a4, of "str ''}''"] assms(5) obtain l5 where
    i2: "is_value (str ''}'') l4 = Inr (False, l5)" and a5: "lexer_all l5 (k # ms @ c # rest)"
    by auto
  from ensure_tokens[OF a5 assms(5)] obtain l6 where
    e2: "ensure [str '',''] l5 = Inr (k, l6)" and a6: "lexer_all l6 (ms @ c # rest)" by blast
  let ?acc = "acc @ [Property key node (Some (t_start key)) (node_end node)]"
  from assms(6) m2 a6 c obtain acc' l7 where
    lp: "objectLoop m ?acc l6 = Some (Inr (acc', l7))" and a7: "lexer_all l7 (c # rest)"
    unfolding members_parse_def by blast
  have "objectLoop (Suc m) acc lx = Some (Inr (acc', l7))"
    by (simp add: i ky e pv i2 e2 lp)
  with a7 m show "\<exists>acc' lx'. objectLoop n acc lx = Some (Inr (acc', lx')) \<and> lexer_all lx' (c # rest)"
    by blast
qed

lemma tokens_parse:
  "value_tokens v \<Longrightarrow> list_all plain_token v \<longrightarrow> (\<exists>N. value_parses N v)"
  "elements_tokens es \<Longrightarrow> list_all plain_token es \<longrightarrow> (\<exists>N. elements_parse N es)"
  "members_tokens ms \<Longrightarrow> list_all plain_token ms \<longrightarrow> (\<exists>N. members_parse N ms)"
proof (induction rule: value_tokens_elements_tokens_members_tokens.inducts)
  case (literal t)
  show ?case using literal_parses[OF literal] by auto
next
  case (array a es c)
  show ?case
  proof
    assume "list_all plain_token (a # es @ [c])"
    then have "list_all plain_token es" by simp
    with array obtain N where "elements_parse N es" by blast
    with array_parses array show "\<exists>N. value_parses N (a # es @ [c])" by blast
  qed
next
  case (object a ms c)
  show ?case
  proof
    assume "list_all plain_token (a # ms @ [c])"
    then have "list_all plain_token ms" by simp
    with object obtain N where "members_parse N ms" by blast
    with object_parses object show "\<exists>N. value_parses N (a # ms @ [c])" by blast
  qed
next
  case no_elements
  show ?case using no_elements_parse by blast
next
  case (last_element v)
  show ?case
  proof
    assume g: "list_all plain_token v"
    with last_element obtain N where "value_parses N v" by blast
    from last_element_parses[OF last_element(1) g this]
    show "\<exists>N. elements_parse N v" by blast
  qed
next
  case (element_comma v k es)
  show ?case
  proof
    assume "list_all plain_token (v @ k # es)"
    then have g: "list_all plain_token v" and h: "list_all plain_token es" by simp_all
    from g element_comma obtain N1 where n1: "value_parses N1 v" by blast
    from h element_comma obtain N2 where n2: "elements_parse N2 es" by blast
    from element_comma have k: "t_value k = str '',''" by blast
    from element_comma_parses[OF element_comma(1) g n1 k n2]
    show "\<exists>N. elements_parse N (v @ k # es)" by blast
  qed
next
  case no_members
  show ?case using no_members_parse by blast
next
  case (last_member key colon v)
  show ?case
  proof
    assume "list_all plain_token (key # colon # v)"
    then have g: "list_all plain_token v" and p: "plain_token key" by simp_all
    from g last_member obtain N where n: "value_parses N v" by blast
    from last_member have c: "t_value colon = str '':''" by blast
    from last_member_parses[OF last_member(1) p c n]
    show "\<exists>N. members_parse N (key # colon # v)" by blast
  qed
next
  case (member_comma key colon v k ms)
  show ?case
  proof
    assume "list_all plain_token (key # colon # v @ k # ms)"
    then have g: "list_all plain_token v" and p: "plain_token key"
      and h: "list_all plain_token ms" by simp_all
    from g member_comma obtain N1 where n1: "value_parses N1 v" by blast
    from h member_comma obtain N2 where n2: "members_parse N2 ms" by blast
    from member_comma have c: "t_value colon = str '':''" and k: "t_value k = str '',''"
      by blast+
    from member_comma_parses[OF member_comma(1) p c n1 k n2]
    show "\<exists>N. members_parse N (key # colon # v @ k # ms)" by blast
  qed
qed

lemma unclosed_first:
  assumes "unclosed v e"
  shows "\<exists>t r. v = t # r \<and> t_value t \<noteq> str '']''"
  using assms by (cases rule: unclosed.cases) simp_all

lemma open_array_aborts:
  assumes "t_value a = str ''[''" and "elements_abort N es e"
  shows "value_aborts (Suc N) (a # es) e"
  unfolding value_aborts_def
proof (intro allI impI)
  fix n lx
  assume n: "Suc N \<le> n" and a0: "lexer_all lx (a # es)"
  from n obtain m where m: "n = Suc m" and mN: "N \<le> m" by (cases n) simp_all
  from peek_tokens[OF a0] obtain l1 where
    p: "peek lx = Inr (Some a, l1)" and a1: "lexer_all l1 (a # es)" by blast
  from is_value_tokens[OF a1, of "str ''{''"] assms(1) obtain l2 where
    i1: "is_value (str ''{'') l1 = Inr (False, l2)" and a2: "lexer_all l2 (a # es)"
    by auto
  from is_value_tokens[OF a2, of "str ''[''"] assms(1) obtain l3 where
    i2: "is_value (str ''['') l2 = Inr (True, l3)" and a3: "lexer_all l3 (a # es)"
    by auto
  from ensure_tokens[OF a3 assms(1)] obtain l4 where
    e1: "ensure [str ''[''] l3 = Inr (a, l4)" and a4: "lexer_all l4 es" by blast
  from assms(2) mN a4 have lp: "arrayLoop m [] l4 = Some (Inl e)"
    unfolding elements_abort_def by blast
  have "parseValue (Suc m) lx = Some (Inl e)"
    by (simp add: p i1 i2 e1 lp)
  with m show "parseValue n lx = Some (Inl e)" by simp
qed

lemma open_object_aborts:
  assumes "t_value a = str ''{''" and "members_abort N ms e"
  shows "value_aborts (Suc N) (a # ms) e"
  unfolding value_aborts_def
proof (intro allI impI)
  fix n lx
  assume n: "Suc N \<le> n" and a0: "lexer_all lx (a # ms)"
  from n obtain m where m: "n = Suc m" and mN: "N \<le> m" by (cases n) simp_all
  from peek_tokens[OF a0] obtain l1 where
    p: "peek lx = Inr (Some a, l1)" and a1: "lexer_all l1 (a # ms)" by blast
  from is_value_tokens[OF a1, of "str ''{''"] assms(1) obtain l2 where
    i1: "is_value (str ''{'') l1 = Inr (True, l2)" and a2: "lexer_all l2 (a # ms)"
    by auto
  from ensure_tokens[OF a2 assms(1)] obtain l4 where
    e1: "ensure [str ''{''] l2 = Inr (a, l4)" and a4: "lexer_all l4 ms" by blast
  from assms(2) mN a4 have lp: "objectLoop m [] l4 = Some (Inl e)"
    unfolding members_abort_def by blast
  have "parseValue (Suc m) lx = Some (Inl e)"
    by (simp add: p i1 e1 lp)
  with m show "parseValue n lx = Some (Inl e)" by simp
qed

lemma elements_end_aborts: "elements_abort (Suc 0) [] TypeError_null"
  unfolding elements_abort_def
proof (intro allI impI)
  fix n lx and acc :: "node list"
  assume n: "Suc 0 \<le> n" and a: "lexer_all lx []"
  from n obtain m where m: "n = Suc m" by (cases n) simp_all
  have "arrayLoop (Suc m) acc lx = Some (Inl TypeError_null)"
    by (simp add: is_value_no_tokens[OF a])
  with m show "arrayLoop n acc lx = Some (Inl TypeError_null)" by simp
qed

lemma element_end_aborts:
  assumes "value_tokens v" and "list_all plain_token v" and "value_parses N v"
  shows "elements_abort (Suc N) v TypeError_null"
  unfolding elements_abort_def
proof (intro allI impI)
  fix n lx and acc :: "node list"
  assume n: "Suc N \<le> n" and a: "lexer_all lx v"
  from n obtain m where m: "n = Suc m" and mN: "N \<le> m" by (cases n) simp_all
  from value_tokens_first[OF assms(1,2)] obtain t r where
    v: "v = t # r" and t: "t_value t \<noteq> str '']''" by blast
  from a v have a0: "lexer_all lx (t # r)" by simp
  from is_value_tokens[OF a0, of "str '']''"] t obtain l1 where
    i: "is_value (str '']'') lx = Inr (False, l1)" and a1: "lexer_all l1 (t # r)"
    by auto
  from a1 v have "lexer_all l1 (v @ [])" by simp
  with assms(3) mN obtain node l2 where
    pv: "parseValue m l1 = Some (Inr (node, l2))" and a2: "lexer_all l2 []"
    unfolding value_parses_def by blast
  have "arrayLoop (Suc m) acc lx = Some (Inl TypeError_null)"
    by (simp add: i pv is_value_no_tokens[OF a2])
  with m show "arrayLoop n acc lx = Some (Inl TypeError_null)" by simp
qed

lemma element_more_aborts:
  assumes "value_tokens v" and "list_all plain_token v" and "value_parses N1 v"
    and "t_value k = str '',''" and "elements_abort N2 es e"
  shows "elements_abort (Suc (max N1 N2)) (v @ k # es) e"
  unfolding elements_abort_def
proof (intro allI impI)
  fix n lx and acc :: "node list"
  assume n: "Suc (max N1 N2) \<le> n" and a: "lexer_all lx (v @ k # es)"
  from n obtain m where m: "n = Suc m" and m1: "N1 \<le> m" and m2: "N2 \<le> m"
    by (cases n) simp_all
  from value_tokens_first[OF assms(1,2)] obtain t r where
    v: "v = t # r" and t: "t_value t \<noteq> str '']''" by blast
  from a v have a0: "lexer_all lx (t # r @ k # es)" by simp
  from is_value_tokens[OF a0, of "str '']''"] t obtain l1 where
    i: "is_value (str '']'') lx = Inr (False, l1)" and a1: "lexer_all l1 (t # r @ k # es)"
    by auto
  from a1 v have "lexer_all l1 (v @ k # es)" by simp
  with assms(3) m1 obtain node l2 where
    pv: "parseValue m l1 = Some (Inr (node, l2))" and a2: "lexer_all l2 (k # es)"
    unfolding value_parses_def by blast
  from is_value_tokens[OF a2, of "str '']''"] assms(4) obtain l3 where
    i2: "is_value (str '']'') l2 = Inr (False, l3)" and a3: "lexer_all l3 (k # es)"
    by auto
  from ensure_tokens[OF a3 assms(4)] obtain l4 where
    en: "ensure [str '',''] l3 = Inr (k, l4)" and a4: "lexer_all l4 es" by blast
  from assms(5) m2 a4 have lp: "arrayLoop m (acc @ [node]) l4 = Some (Inl e)"
    unfolding elements_abort_def by blast
  have "arrayLoop (Suc m) acc lx = Some (Inl e)"
    by (simp add: i pv i2 en lp)
  with m show "arrayLoop n acc lx = Some (Inl e)" by simp
qed

lemma element_open_aborts:
  assumes "unclosed v e" and "value_aborts N v e"
  shows "elements_abort (Suc N) v e"
  unfolding elements_abort_def
proof (intro allI impI)
  fix n lx and acc :: "node list"
  assume n: "Suc N \<le> n" and a: "lexer_all lx v"
  from n obtain m where m: "n = Suc m" and mN: "N \<le> m" by (cases n) simp_all
  from unclosed_first[OF assms(1)] obtain t r where
    v: "v = t # r" and t: "t_value t \<noteq> str '']''" by blast
  from a v have a0: "lexer_all lx (t # r)" by simp
  from is_value_tokens[OF a0, of "str '']''"] t obtain l1 where
    i: "is_value (str '']'') lx = Inr (False, l1)" and a1: "lexer_all l1 (t # r)"
    by auto
  from a1 v have "lexer_all l1 v" by simp
  with assms(2) mN have pv: "parseValue m l1 = Some (Inl e)"
    unfolding value_aborts_def by blast
  have "arrayLoop (Suc m) acc lx = Some (Inl e)"
    by (simp add: i pv)
  with m show "arrayLoop n acc lx = Some (Inl e)" by simp
qed

lemma members_end_aborts: "members_abort (Suc 0) [] TypeError_null"
  unfolding members_abort_def
proof (intro allI impI)
  fix n lx and acc :: "property list"
  assume n: "Suc 0 \<le> n" and a: "lexer_all lx []"
  from n obtain m where m: "n = Suc m" by (cases n) simp_all
  have "objectLoop (Suc m) acc lx = Some (Inl TypeError_null)"
    by (simp add: is_value_no_tokens[OF a])
  with m show "objectLoop n acc lx = Some (Inl TypeError_null)" by simp
qed

lemma member_start:
  assumes "t_type key \<in> {TOKEN_STRING, TOKEN_NUMBER}" and "plain_token key"
    and "lexer_all lx (key # ts)"
  shows "\<exists>l1 l2. is_value (str ''}'') lx = Inr (False, l1)
           \<and> ensureType [TOKEN_STRING, TOKEN_NUMBER] l1 = Inr (key, l2) \<and> lexer_all l2 ts"
proof -
  from is_value_tokens[OF assms(3), of "str ''}''"] key_not_brace[OF assms(1,2)] obtain l1 where
    i: "is_value (str ''}'') lx = Inr (False, l1)" and a1: "lexer_all l1 (key # ts)"
    by auto
  from assms(1) have kt: "t_type key \<in> set [TOKEN_STRING, TOKEN_NUMBER]" by simp
  from ensureType_tokens[OF a1 kt] i show ?thesis by blast
qed

lemma key_end_aborts:
  assumes "t_type key \<in> {TOKEN_STRING, TOKEN_NUMBER}" and "plain_token key"
  shows "members_abort (Suc 0) [key] TypeError_undefined"
  unfolding members_abort_def
proof (intro allI impI)
  fix n lx and acc :: "property list"
  assume n: "Suc 0 \<le> n" and a: "lexer_all lx [key]"
  from n obtain m where m: "n = Suc m" by (cases n) simp_all
  from member_start[OF assms a] obtain l1 l2 where
    i: "is_value (str ''}'') lx = Inr (False, l1)" and
    k: "ensureType [TOKEN_STRING, TOKEN_NUMBER] l1 = Inr (key, l2)" and a2: "lexer_all l2 []"
    by blast
  have "objectLoop (Suc m) acc lx = Some (Inl TypeError_undefined)"
    by (simp add: i k ensure_no_tokens[OF a2])
  with m show "objectLoop n acc lx = Some (Inl TypeError_undefined)" by simp
qed

lemma colon_end_aborts:
  assumes "t_type key \<in> {TOKEN_STRING, TOKEN_NUMBER}" and "plain_token key"
    and "t_value colon = str '':''"
  shows "members_abort (Suc (Suc 0)) [key, colon] (Error (str ''Unexpected end of input''))"
  unfolding members_abort_def
proof (intro allI impI)
  fix n lx and acc :: "property list"
  assume n: "Suc (Suc 0) \<le> n" and a: "lexer_all lx [key, colon]"
  from n obtain m where m: "n = Suc (Suc m)" by (cases n; cases "n - 1") simp_all
  from member_start[OF assms(1,2) a] obtain l1 l2 where
    i: "is_value (str ''}'') lx = Inr (False, l1)" and
    k: "ensureType [TOKEN_STRING, TOKEN_NUMBER] l1 = Inr (key, l2)" and a2: "lexer_all l2 [colon]"
    by blast
  from ensure_tokens[OF a2 assms(3)] obtain l3 where
    en: "ensure [str '':''] l2 = Inr (colon, l3)" and a3: "lexer_all l3 []" by blast
  have pv: "parseValue (Suc m) l3 = Some (Inl (Error (str ''Unexpected end of input'')))"
    by (simp add: peek_no_tokens[OF a3])
  have "objectLoop (Suc (Suc m)) acc lx = Some (Inl (Error (str ''Unexpected end of input'')))"
    by (simp add: i k en pv del: parseValue.simps)
  with m show "objectLoop n acc lx = Some (Inl (Error (str ''Unexpected end of input'')))" by simp
qed

lemma member_end_aborts:
  assumes "t_type key \<in> {TOKEN_STRING, TOKEN_NUMBER}" and "plain_token key"
    and "t_value colon = str '':''" and "value_parses N v"
  shows "members_abort (Suc N) (key # colon # v) TypeError_null"
  unfolding members_abort_def
proof (intro allI impI)
  fix n lx and acc :: "property list"
  assume n: "Suc N \<le> n" and a: "lexer_all lx (key # colon # v)"
  from n obtain m where m: "n = Suc m" and mN: "N \<le> m" by (cases n) simp_all
  from member_start[OF assms(1,2) a] obtain l1 l2 where
    i: "is_value (str ''}'') lx = Inr (False, l1)" and
    k: "ensureType [TOKEN_STRING, TOKEN_NUMBER] l1 = Inr (key, l2)"
    and a2: "lexer_all l2 (colon # v)"
    by blast
  from ensure_tokens[OF a2 assms(3)] obtain l3 where
    en: "ensure [str '':''] l2 = Inr (colon, l3)" and a3: "lexer_all l3 v" by blast
  from a3 have "lexer_all l3 (v @ [])" by simp
  with assms(4) mN obtain node l4 where
    pv: "parseValue m l3 = Some (Inr (node, l4))" and a4: "lexer_all l4 []"
    unfolding value_parses_def by blast
  have "objectLoop (Suc m) acc lx = Some (Inl TypeError_null)"
    by (simp add: i k en pv is_value_no_tokens[OF a4])
  with m show "objectLoop n acc lx = Some (Inl TypeError_null)" by simp
qed

lemma member_more_aborts:
  assumes "t_type key \<in> {TOKEN_STRING, TOKEN_NUMBER}" and "plain_token key"
    and "t_value colon = str '':''" and "value_parses N1 v"
    and "t_value k = str '',''" and "members_abort N2 ms e"
  shows "members_abort (Suc (max N1 N2)) (key # colon # v @ k # ms) e"
  unfolding members_abort_def
proof (intro allI impI)
  fix n lx and acc :: "property list"
  assume n: "Suc (max N1 N2) \<le> n" and a: "lexer_all lx (key # colon # v @ k # ms)"
  from n obtain m where m: "n = Suc m" and m1: "N1 \<le> m" and m2: "N2 \<le> m"
    by (cases n) simp_all
  from member_start[OF assms(1,2) a] obtain l1 l2 where
    i: "is_value (str ''}'') lx = Inr (False, l1)" and
    ky: "ensureType [TOKEN_STRING, TOKEN_NUMBER] l1 = Inr (key, l2)"
    and a2: "lexer_all l2 (colon # v @ k # ms)"
    by blast
  from ensure_tokens[OF a2 assms(3)] obtain l3 where
    en: "ensure [str '':''] l2 = Inr (colon, l3)" and a3: "lexer_all l3 (v @ k # ms)" by blast
  from assms(4) m1 a3 obtain node l4 where
    pv: "parseValue m l3 = Some (Inr (node, l4))" and a4: "lexer_all l4 (k # ms)"
    unfolding value_parses_def by blast
  from is_value_tokens[OF a4, of "str ''}''"] assms(5) obtain l5 where
    i2: "is_value (str ''}'') l4 = Inr (False, l5)" and a5: "lexer_all l5 (k # ms)"
    by auto
  from ensure_tokens[OF a5 assms(5)] obtain l6 where
    e2: "ensure [str '',''] l5 = Inr (k, l6)" and a6: "lexer_all l6 ms" by blast
  let ?acc = "acc @ [Property key node (Some (t_start key)) (node_end node)]"
  from assms(6) m2 a6 have lp: "objectLoop m ?acc l6 = Some (Inl e)"
    unfolding members_abort_def by blast
  have "objectLoop (Suc m) acc lx = Some (Inl e)"
    by (simp add: i ky en pv i2 e2 lp)
  with m show "objectLoop n acc lx = Some (Inl e)" by simp
qed

lemma member_open_aborts:
  assumes "t_type key \<in> {TOKEN_STRING, TOKEN_NUMBER}" and "plain_token key"
    and "t_value colon = str '':''" and "value_aborts N v e"
  shows "members_abort (Suc N) (key # colon # v) e"
  unfolding members_abort_def
proof (intro allI impI)
  fix n lx and acc :: "property list"
  assume n: "Suc N \<le> n" and a: "lexer_all lx (key # colon # v)"
  from n obtain m where m: "n = Suc m" and mN: "N \<le> m" by (cases n) simp_all
  from member_start[OF assms(1,2) a] obtain l1 l2 where
    i: "is_value (str ''}'') lx = Inr (False, l1)" and
    k: "ensureType [TOKEN_STRING, TOKEN_NUMBER] l1 = Inr (key, l2)"
    and a2: "lexer_all l2 (colon # v)"
    by blast
  from ensure_tokens[OF a2 assms(3)] obtain l3 where
    en: "ensure [str '':''] l2 = Inr (colon, l3)" and a3: "lexer_all l3 v" by blast
  from assms(4) mN a3 have pv: "parseValue m l3 = Some (Inl e)"
    unfolding value_aborts_def by blast
  have "objectLoop (Suc m) acc lx = Some (Inl e)"
    by (simp add: i k en pv)
  with m show "objectLoop n acc lx = Some (Inl e)" by simp
qed

lemma tokens_abort:
  "unclosed v e \<Longrightarrow> list_all plain_token v \<longrightarrow> (\<exists>N. value_aborts N v e)"
  "unclosed_elements es e \<Longrightarrow> list_all plain_token es \<longrightarrow> (\<exists>N. elements_abort N es e)"
  "unclosed_members ms e \<Longrightarrow> list_all plain_token ms \<longrightarrow> (\<exists>N. members_abort N ms e)"
proof (induction rule: unclosed_unclosed_elements_unclosed_members.inducts)
  case (open_array a es e)
  show ?case
  proof
    assume "list_all plain_token (a # es)"
    then have "list_all plain_token es" by simp
    with open_array obtain N where "elements_abort N es e" by blast
    with open_array_aborts open_array show "\<exists>N. value_aborts N (a # es) e" by blast
  qed
next
  case (open_object a ms e)
  show ?case
  proof
    assume "list_all plain_token (a # ms)"
    then have "list_all plain_token ms" by simp
    with open_object obtain N where "members_abort N ms e" by blast
    with open_object_aborts open_object show "\<exists>N. value_aborts N (a # ms) e" by blast
  qed
next
  case elements_end
  show ?case using elements_end_aborts by blast
next
  case (element_end v)
  show ?case
  proof
    assume g: "list_all plain_token v"
    with tokens_parse(1)[OF element_end] obtain N where "value_parses N v" by blast
    from element_end_aborts[OF element_end g this]
    show "\<exists>N. elements_abort N v TypeError_null" by blast
  qed
next
  case (element_more v k es e)
  show ?case
  proof
    assume "list_all plain_token (v @ k # es)"
    then have g: "list_all plain_token v" and h: "list_all plain_token es" by simp_all
    from g tokens_parse(1)[OF element_more(1)] obtain N1 where n1: "value_parses N1 v" by blast
    from h element_more obtain N2 where n2: "elements_abort N2 es e" by blast
    from element_more have k: "t_value k = str '',''" by blast
    from element_more_aborts[OF element_more(1) g n1 k n2]
    show "\<exists>N. elements_abort N (v @ k # es) e" by blast
  qed
next
  case (element_open v e)
  show ?case
  proof
    assume g: "list_all plain_token v"
    with element_open obtain N where "value_aborts N v e" by blast
    from element_open_aborts[OF element_open(1) this]
    show "\<exists>N. elements_abort N v e" by blast
  qed
next
  case members_end
  show ?case using members_end_aborts by blast
next
  case (key_end key)
  show ?case using key_end_aborts[OF key_end] by auto
next
  case (colon_end key colon)
  show ?case using colon_end_aborts[OF colon_end(1) _ colon_end(2)] by auto
next
  case (member_end key colon v)
  show ?case
  proof
    assume "list_all plain_token (key # colon # v)"
    then have g: "list_all plain_token v" and p: "plain_token key" by simp_all
    from g tokens_parse(1)[OF member_end(3)] obtain N where n: "value_parses N v" by blast
    from member_end_aborts[OF member_end(1) p member_end(2) n]
    show "\<exists>N. members_abort N (key # colon # v) TypeError_null" by blast
  qed
next
  case (member_more key colon v k ms e)
  show ?case
  proof
    assume "list_all plain_token (key # colon # v @ k # ms)"
    then have g: "list_all plain_token v" and p: "plain_token key"
      and h: "list_all plain_token ms" by simp_all
    from g tokens_parse(1)[OF member_more(3)] obtain N1 where n1: "value_parses N1 v" by blast
    from h member_more obtain N2 where n2: "members_abort N2 ms e" by blast
    from member_more have c: "t_value colon = str '':''" and k: "t_value k = str '',''"
      by blast+
    from member_more_aborts[OF member_more(1) p c n1 k n2]
    show "\<exists>N. members_abort N (key # colon # v @ k # ms) e" by blast
  qed
next
  case (member_open key colon v e)
  show ?case
  proof
    assume "list_all plain_token (key # colon # v)"
    then have g: "list_all plain_token v" and p: "plain_token key" by simp_all
    from g member_open obtain N where n: "value_aborts N v e" by blast
    from member_open have c: "t_value colon = str '':''" by blast
    from member_open_aborts[OF member_open(1) p c n]
    show "\<exists>N. members_abort N (key # colon # v) e" by blast
  qed
qed

lemma null_match:
  assumes "regex_match False S_NULL s = Some v"
  shows "v = str ''null''"
proof -
  from assms obtain z zs where m: "matches False S_NULL s = z # zs" and s: "s = v @ z"
    unfolding regex_match_Some_iff by blast
  from m have "z \<in> set (matches False (Lit (str ''null'')) s)" by (simp add: S_NULL_def)
  then have "s = str ''null'' @ z" unfolding in_Lit .
  with s show ?thesis by auto
qed

lemma lexed_plain:
  assumes "lex lx = Inr (t, lx')"
  shows "plain_token t"
proof -
  from assms have "lex_grammar grammar (skipWhitespace lx) = Inr (t, lx')"
    by (simp add: lex_def)
  from lex_grammar_token[OF this] obtain ty u r s where
    g: "(ty, u, r) \<in> set grammar" and m: "regex_match u r s = Some (t_value t)" and
    ty: "t_type t = ty"
    by blast
  from g consider
      (string) "ty = TOKEN_STRING" "u = True" "r = S_STRING"
    | (number) "ty = TOKEN_NUMBER" "u = False" "r = S_NUMBER"
    | (punctuator) "ty = TOKEN_PUNCTUATOR"
    | (boolean) "ty = TOKEN_BOOLEAN" "u = False" "r = S_BOOL"
    | (null) "ty = TOKEN_NULL" "u = False" "r = S_NULL"
    by (auto simp: grammar_def)
  then show ?thesis
  proof cases
    case string
    with m have "spec_string (t_value t)" using regex_match_string by blast
    then obtain body where "t_value t = 34 # body @ [34]" unfolding spec_string_def by blast
    then show ?thesis by (simp add: plain_token_def structural_def)
  next
    case number
    with m have "spec_number (t_value t)" using regex_match_number by blast
    from spec_number_hd[OF this] show ?thesis
      by (cases "t_value t") (auto simp: plain_token_def structural_def is_digit_def)
  next
    case punctuator
    with ty show ?thesis by (simp add: plain_token_def)
  next
    case boolean
    with m bool_match have "t_value t = str ''true'' \<or> t_value t = str ''false''" by blast
    then show ?thesis by (auto simp: plain_token_def structural_def str_def)
  next
    case null
    with m null_match have "t_value t = str ''null''" by blast
    then show ?thesis by (simp add: plain_token_def structural_def str_def)
  qed
qed

lemma lexer_all_plain:
  "lexer_all lx ts \<Longrightarrow> list_all plain_token (stash lx) \<Longrightarrow> list_all plain_token ts"
proof (induction rule: lexer_all.induct)
  case (all_done lx lx')
  show ?case by simp
next
  case (all_more lx t lx' ts)
  show ?case
  proof (cases "stash lx")
    case (Cons a s)
    with all_more.hyps(1) have "t = a" "stash lx' = s" by (auto simp: next_token_def)
    with Cons all_more.prems all_more.IH show ?thesis by simp
  next
    case Nil
    with all_more.hyps(1) have l: "lex lx = Inr (t, lx')"
      by (auto simp: next_token_def split: if_splits sum.splits)
    from lex_keeps(1)[OF l] Nil have "stash lx' = []" by simp
    with all_more.IH lexed_plain[OF l] show ?thesis by simp
  qed
qed

lemma unclosed_aborts:
  assumes "lexer_all (Lexer src) ts" and "unclosed ts e"
  shows "\<exists>N. \<forall>n\<ge>N. parse n src = Some (Inl e)"
proof -
  have "stash (Lexer src) = []" by (simp add: Lexer_def)
  with lexer_all_plain[OF assms(1)] have "list_all plain_token ts" by simp
  with tokens_abort(1)[OF assms(2)] obtain N where "value_aborts N ts e" by blast
  with assms(1) have "\<forall>n\<ge>N. parseValue n (Lexer src) = Some (Inl e)"
    unfolding value_aborts_def by blast
  then have "\<forall>n\<ge>N. parse n src = Some (Inl e)" by (simp add: parse_def)
  then show ?thesis by blast
qed

lemma unclosed_errors:
  "unclosed v e \<Longrightarrow>
     e = TypeError_null \<or> e = TypeError_undefined \<or> e = Error (str ''Unexpected end of input'')"
  "unclosed_elements es e \<Longrightarrow>
     e = TypeError_null \<or> e = TypeError_undefined \<or> e = Error (str ''Unexpected end of input'')"
  "unclosed_members ms e \<Longrightarrow>
     e = TypeError_null \<or> e = TypeError_undefined \<or> e = Error (str ''Unexpected end of input'')"
  by (induction rule: unclosed_unclosed_elements_unclosed_members.inducts) simp_all

section \<open>Claims\<close>

text \<open>
  C2. The claim: \<open>peek()\<close> returns the same token as \<open>lookahead(0)\<close> and does not consume
  it; two \<open>peek()\<close> calls in a row return the same token, and \<open>peek()\<close> does not fail when
  the next token is well formed, whatever follows it.

  On the source text \<open>1 @\<close> the first \<open>peek()\<close> returns the number token \<open>1\<close> and leaves it
  in the stash. The second \<open>peek()\<close> runs the loop of \<open>lookahead\<close> again, which lexes one
  more token although the stash already holds the token asked for, and raises on \<open>@\<close>.
\<close>

theorem peek_twice_raises:
  "peek (Lexer (str ''1 @'')) =
     Inr (Some (Token TOKEN_NUMBER (str ''1'') 0),
          \<lparr>index = 2, source = str ''1 @'', input = str ''@'',
           stash = [Token TOKEN_NUMBER (str ''1'') 0]\<rparr>)
   \<and> peek \<lparr>index = 2, source = str ''1 @'', input = str ''@'',
            stash = [Token TOKEN_NUMBER (str ''1'') 0]\<rparr>
     = Inl (Error (str ''Unexpected token '' @ [39] @ str ''@'' @ [39]))"
  by (simp add: lexer_eval cong: weak_case_cong)

text \<open>
  C3. The claim: for every input that is a complete value followed by more characters,
  \<open>parse\<close> does not raise and returns the leading value, as for \<open>123 456\<close>.

  \<open>123 456\<close> does return the literal \<open>123\<close>. On \<open>123 @\<close> the parser raises: \<open>parseValue\<close>
  peeks once for the token and again inside \<open>is\<close>, and every \<open>peek()\<close> lexes one more
  token, so the lexer reaches \<open>@\<close> before the literal is returned.
\<close>

theorem parse_trailing_characters:
  "parse (Suc n) (str ''123 456'') = Some (Inr (NumericLiteral (str ''123'') 0 3))
   \<and> parse (Suc n) (str ''123 @'')
     = Some (Inl (Error (str ''Unexpected token '' @ [39] @ str ''@'' @ [39])))"
  by (simp add: lexer_eval parser_eval cong: weak_case_cong)

text \<open>
  C4. The claim: every node of a successful parse has \<open>end \<ge> start\<close>, and the span of an
  object or array encloses the spans of its properties or elements.

  \<open>parseValue\<close> builds the node of \<open>null\<close> with \<open>new NullLiteral(token.start)\<close>: the
  constructor takes \<open>(start, end)\<close>, so \<open>end\<close> is \<open>undefined\<close>, where the boolean, string
  and number branches pass \<open>token.end\<close>. A property whose value is \<open>null\<close> takes its \<open>end\<close>
  from that node.
\<close>

theorem null_literal_has_no_end:
  "parse (Suc n) (str ''null'') = Some (Inr (NullLiteral 0 None))
   \<and> node_end (NullLiteral 0 None) = None
   \<and> parse (Suc n) (str ''true'') = Some (Inr (BooleanLiteral (str ''true'') 0 4))
   \<and> parse (Suc (Suc (Suc n))) (str ''{\"a\":null}'')
     = Some (Inr (ObjectLiteral
         [PropertyNode (Token TOKEN_STRING (str ''\"a\"'') 1) (Some 1) None] 0 10))"
  by (simp add: lexer_eval parser_eval cong: weak_case_cong)

text \<open>
  C5. The claim: whitespace skipping, before each token and after each lexed token,
  skips exactly runs of tab, line feed, carriage return and space, a carriage return
  followed by a line feed counting as one unit, and skips no other character.

  The loop of \<open>skipWhitespace\<close> tests \<open>char >= 0 && char <= 32\<close>, so it skips every code
  unit from 0 to 32: the form feed (12) before \<open>1\<close> is skipped, and the token \<open>1\<close> starts
  at offset 1.
\<close>

theorem form_feed_is_skipped:
  "\<not> (\<forall>i. index (Lexer [12, 49]) \<le> i \<and> i < index (skipWhitespace (Lexer [12, 49]))
         \<longrightarrow> source (Lexer [12, 49]) ! i \<in> {9, 10, 13, 32})
   \<and> lex (Lexer [12, 49])
      = Inr (Token TOKEN_NUMBER [49] 1, \<lparr>index = 2, source = [12, 49], input = [], stash = []\<rparr>)"
proof -
  have "index (skipWhitespace (Lexer [12, 49])) = 1"
    by (simp add: lexer_eval)
  then have "\<not> (\<forall>i. index (Lexer [12, 49]) \<le> i \<and> i < index (skipWhitespace (Lexer [12, 49]))
         \<longrightarrow> source (Lexer [12, 49]) ! i \<in> {9, 10, 13, 32})"
    by (auto simp: Lexer_def intro!: exI[of _ 0])
  moreover have "lex (Lexer [12, 49])
      = Inr (Token TOKEN_NUMBER [49] 1, \<lparr>index = 2, source = [12, 49], input = [], stash = []\<rparr>)"
    by (simp add: lexer_eval cong: weak_case_cong)
  ultimately show ?thesis by simp
qed

text \<open>
  C5, as the code has it: \<open>skipWhitespace\<close> moves the index over the longest run of code
  units from 0 to 32 that starts at the index, and over nothing else: every code unit it
  skips is at most 32, and it stops at the end of the source or at a code unit above 32.
  The source and the stash are unchanged and the input is the rest of the source. A
  carriage return followed by a line feed is stepped over in one round of the loop.
  \<open>lex\<close> skips before it matches the grammar, and again after the token it returns.
\<close>

theorem skipWhitespace_skips_codes_up_to_32:
  "index (skipWhitespace lx)
     = index lx + length (takeWhile (\<lambda>c. c \<le> 32) (drop (index lx) (source lx)))
   \<and> source (skipWhitespace lx) = source lx
   \<and> stash (skipWhitespace lx) = stash lx
   \<and> input (skipWhitespace lx) = drop (index (skipWhitespace lx)) (source lx)
   \<and> (\<forall>i. index lx \<le> i \<and> i < index (skipWhitespace lx) \<longrightarrow> source lx ! i \<le> 32)
   \<and> (index (skipWhitespace lx) < length (source lx)
        \<longrightarrow> 32 < source lx ! index (skipWhitespace lx))
   \<and> (\<forall>i. i < length (source lx) \<and> source lx ! i = 13
            \<and> charCodeAt (source lx) (i + 1) = Some 10
        \<longrightarrow> skip_loop (source lx) i = skip_loop (source lx) (i + 2))
   \<and> lex lx = lex_grammar grammar (skipWhitespace lx)
   \<and> (\<forall>tok lx'. lex lx = Inr (tok, lx')
        \<longrightarrow> lx' = skipWhitespace (forward (length (t_value tok)) (skipWhitespace lx)))"
proof -
  have crlf: "\<forall>i. i < length (source lx) \<and> source lx ! i = 13
            \<and> charCodeAt (source lx) (i + 1) = Some 10
        \<longrightarrow> skip_loop (source lx) i = skip_loop (source lx) (i + 2)"
    by (subst skip_loop.simps) (simp add: numeral_2_eq_2)
  show ?thesis
    using skipped_run[of lx] skip_stops[of lx] lex_Inr_state[of lx] crlf
    by (simp add: skipWhitespace_fields lex_def)
qed

theorem skipWhitespace_witness:
  "index (skipWhitespace (Lexer [13, 10, 11, 49])) = 3
   \<and> (0 \<le> (2::nat) \<and> 2 < index (skipWhitespace (Lexer [13, 10, 11, 49])))
   \<and> [13, 10, 11, 49] ! 2 \<le> (32::nat)
   \<and> index (skipWhitespace (Lexer [13, 10, 11, 49])) < length [13, 10, 11, 49::nat]
   \<and> 32 < [13, 10, 11, 49::nat] ! 3
   \<and> skip_loop [13, 10, 11, 49] 0 = skip_loop [13, 10, 11, 49] 2
   \<and> lex (Lexer [13, 10, 11, 49])
      = Inr (Token TOKEN_NUMBER [49] 3,
             \<lparr>index = 4, source = [13, 10, 11, 49], input = [], stash = []\<rparr>)"
  using skipWhitespace_skips_codes_up_to_32[of "Lexer [13, 10, 11, 49]"]
  by (simp add: lexer_eval charCodeAt_def skip_loop_eq cong: weak_case_cong)

text \<open>
  C1. The claim: the Property node of a parsed object member holds only its key token
  and the type tag; the value and the span taken from \<open>key.start\<close> and \<open>value.end\<close> are
  never assigned on the node.

  The constructor of \<open>Property\<close> assigns \<open>type\<close>, \<open>key\<close>, \<open>start\<close> and \<open>end\<close>; only \<open>value\<close>
  is dropped. For \<open>{"a":1}\<close> the property has \<open>start = 1\<close> and \<open>end = 6\<close>.
\<close>

theorem property_span_is_assigned:
  "parse (Suc (Suc (Suc 0))) (str ''{\"a\":1}'')
     = Some (Inr (ObjectLiteral
         [PropertyNode (Token TOKEN_STRING (str ''\"a\"'') 1) (Some 1) (Some 6)] 0 7))
   \<and> \<not> (\<forall>p \<in> set [PropertyNode (Token TOKEN_STRING (str ''\"a\"'') 1) (Some 1) (Some 6)].
           p_start p = None \<and> p_end p = None)"
  by (simp add: lexer_eval parser_eval cong: weak_case_cong)

text \<open>
  C1, as the code has it: \<open>parseObjectLiteral\<close> reads \<open>{\<close>, runs the rounds of its loop and
  reads \<open>}\<close>; the properties of the node it returns are, in order, one Property node for
  each round, and the node of a round holds the type tag \<open>Property\<close>, the token that
  \<open>ensureType\<close> returned in that round as \<open>key\<close> (a string or a number token),
  \<open>start = key.start\<close> and \<open>end = value.end\<close> for the node that \<open>parseValue\<close> returned in that
  round. The keys and values of the rounds are determined by the lexer state after \<open>{\<close>.
  The value itself is not kept on the node.
\<close>

theorem property_node_fields:
  assumes "parseObjectLiteral n lx = Some (Inr (node, lx'))"
  shows "\<exists>startToken lx1 kvs lx2 endToken ps.
           ensure [str ''{''] lx = Inr (startToken, lx1)
         \<and> object_rounds n lx1 kvs lx2
         \<and> (\<forall>kvs' l. object_rounds n lx1 kvs' l \<longrightarrow> kvs' = kvs \<and> l = lx2)
         \<and> ensure [str ''}''] lx2 = Inr (endToken, lx')
         \<and> node = ObjectLiteral ps (t_start startToken) (t_end endToken)
         \<and> list_all2 (\<lambda>p (key, v). p_type p = ''Property'' \<and> p_key p = key
                          \<and> p_start p = Some (t_start key) \<and> p_end p = node_end v
                          \<and> t_type key \<in> {TOKEN_STRING, TOKEN_NUMBER}) ps kvs"
proof -
  from parseObjectLiteral_parts[OF assms] obtain startToken lx1 ps lx2 endToken where
    a: "ensure [str ''{''] lx = Inr (startToken, lx1)" and
    b: "objectLoop n [] lx1 = Some (Inr (ps, lx2))" and
    c: "ensure [str ''}''] lx2 = Inr (endToken, lx')" and
    d: "node = ObjectLiteral ps (t_start startToken) (t_end endToken)"
    by blast
  from objectLoop_rounds[OF b] obtain kvs where
    r: "object_rounds n lx1 kvs lx2" and
    p: "ps = map (\<lambda>(key, v). Property key v (Some (t_start key)) (node_end v)) kvs" and
    t: "list_all (\<lambda>(key, v). t_type key \<in> {TOKEN_STRING, TOKEN_NUMBER}) kvs"
    by auto
  have u: "\<forall>kvs' l. object_rounds n lx1 kvs' l \<longrightarrow> kvs' = kvs \<and> l = lx2"
    using object_rounds_unique[OF r] by blast
  from property_fields_of_pairs[OF t] p
  have f: "list_all2 (\<lambda>p (key, v). p_type p = ''Property'' \<and> p_key p = key
                          \<and> p_start p = Some (t_start key) \<and> p_end p = node_end v
                          \<and> t_type key \<in> {TOKEN_STRING, TOKEN_NUMBER}) ps kvs"
    by simp
  from a r u c d f show ?thesis by blast
qed

theorem property_node_fields_witness:
  "parseObjectLiteral (Suc (Suc 0)) (Lexer (str ''{\"a\":1}''))
     = Some (Inr (ObjectLiteral
          [PropertyNode (Token TOKEN_STRING (str ''\"a\"'') 1) (Some 1) (Some 6)] 0 7,
          \<lparr>index = 7, source = str ''{\"a\":1}'', input = [], stash = []\<rparr>))
   \<and> ensure [str ''{''] (Lexer (str ''{\"a\":1}''))
     = Inr (Token TOKEN_PUNCTUATOR (str ''{'') 0,
            \<lparr>index = 1, source = str ''{\"a\":1}'', input = str ''\"a\":1}'', stash = []\<rparr>)
   \<and> object_rounds (Suc (Suc 0))
        \<lparr>index = 1, source = str ''{\"a\":1}'', input = str ''\"a\":1}'', stash = []\<rparr>
        [(Token TOKEN_STRING (str ''\"a\"'') 1, NumericLiteral (str ''1'') 5 6)]
        \<lparr>index = 7, source = str ''{\"a\":1}'', input = [],
          stash = [Token TOKEN_PUNCTUATOR (str ''}'') 6]\<rparr>
   \<and> list_all2 (\<lambda>p (key, v). p_type p = ''Property'' \<and> p_key p = key
                    \<and> p_start p = Some (t_start key) \<and> p_end p = node_end v
                    \<and> t_type key \<in> {TOKEN_STRING, TOKEN_NUMBER})
        [PropertyNode (Token TOKEN_STRING (str ''\"a\"'') 1) (Some 1) (Some 6)]
        [(Token TOKEN_STRING (str ''\"a\"'') 1, NumericLiteral (str ''1'') 5 6)]"
proof -
  let ?S = "str ''{\"a\":1}''"
  let ?LA = "\<lparr>index = 1, source = ?S, input = str ''\"a\":1}'', stash = []\<rparr>"
  let ?LB = "\<lparr>index = 7, source = ?S, input = [], stash = [Token TOKEN_PUNCTUATOR (str ''}'') 6]\<rparr>"
  let ?K = "Token TOKEN_STRING (str ''\"a\"'') 1"
  let ?V = "NumericLiteral (str ''1'') 5 6"
  let ?F = "\<lambda>p (key, v). p_type p = ''Property'' \<and> p_key p = key
                    \<and> p_start p = Some (t_start key) \<and> p_end p = node_end v
                    \<and> t_type key \<in> {TOKEN_STRING, TOKEN_NUMBER}"
  have run: "parseObjectLiteral (Suc (Suc 0)) (Lexer ?S)
     = Some (Inr (ObjectLiteral [PropertyNode ?K (Some 1) (Some 6)] 0 7,
          \<lparr>index = 7, source = ?S, input = [], stash = []\<rparr>))"
    by (simp add: lexer_eval parser_eval cong: weak_case_cong)
  have open_brace: "ensure [str ''{''] (Lexer ?S) = Inr (Token TOKEN_PUNCTUATOR (str ''{'') 0, ?LA)"
    by (simp add: lexer_eval parser_eval cong: weak_case_cong)
  let ?L1 = "\<lparr>index = 4, source = ?S, input = str '':1}'', stash = [?K]\<rparr>"
  let ?L2 = "\<lparr>index = 4, source = ?S, input = str '':1}'', stash = []\<rparr>"
  let ?L3 = "\<lparr>index = 5, source = ?S, input = str ''1}'', stash = []\<rparr>"
  have s1: "is_value (str ''}'') ?LA = Inr (False, ?L1)"
    by (simp add: lexer_eval parser_eval cong: weak_case_cong)
  have s2: "ensureType [TOKEN_STRING, TOKEN_NUMBER] ?L1 = Inr (?K, ?L2)"
    by (simp add: lexer_eval parser_eval cong: weak_case_cong)
  have s3: "ensure [str '':''] ?L2 = Inr (Token TOKEN_PUNCTUATOR (str '':'') 4, ?L3)"
    by (simp add: lexer_eval parser_eval cong: weak_case_cong)
  have s4: "parseValue (Suc 0) ?L3 = Some (Inr (?V, ?LB))"
    by (simp add: lexer_eval parser_eval cong: weak_case_cong)
  have s5: "is_value (str ''}'') ?LB = Inr (True, ?LB)"
    by (simp add: lexer_eval parser_eval cong: weak_case_cong)
  from s5 have s6: "object_rounds (Suc 0) ?LB [] ?LB"
    by (rule object_rounds.closing)
  from s1 s2 s3 s4 s5 s6 have rounds: "object_rounds (Suc (Suc 0)) ?LA [(?K, ?V)] ?LB"
    by (rule object_rounds.member_then_brace)
  from property_node_fields[OF run] obtain startToken lx1 kvs lx2 endToken ps where
    a: "ensure [str ''{''] (Lexer ?S) = Inr (startToken, lx1)" and
    u: "\<forall>kvs' l. object_rounds (Suc (Suc 0)) lx1 kvs' l \<longrightarrow> kvs' = kvs \<and> l = lx2" and
    c: "ensure [str ''}''] lx2
          = Inr (endToken, \<lparr>index = 7, source = ?S, input = [], stash = []\<rparr>)" and
    d: "ObjectLiteral [PropertyNode ?K (Some 1) (Some 6)] 0 7
          = ObjectLiteral ps (t_start startToken) (t_end endToken)" and
    f: "list_all2 ?F ps kvs"
    by blast
  from a open_brace have l: "lx1 = ?LA" by simp
  from u l have "object_rounds (Suc (Suc 0)) ?LA [(?K, ?V)] ?LB \<longrightarrow> [(?K, ?V)] = kvs \<and> ?LB = lx2"
    by simp
  with rounds have k: "kvs = [(?K, ?V)]" by simp
  from d have p: "ps = [PropertyNode ?K (Some 1) (Some 6)]" by simp
  from f k p have "list_all2 ?F [PropertyNode ?K (Some 1) (Some 6)] [(?K, ?V)]"
    by simp
  with run open_brace rounds show ?thesis by (intro conjI)
qed

text \<open>
  C7. The number pattern takes an exponent only as \<open>e\<close> or \<open>E\<close>, a sign that must be
  there, and digits. A numeral with a signed exponent, such as \<open>123.456e+9\<close>, is matched
  whole by the number pattern and lexed as one number token, also when text that cannot
  continue a number follows it. Every text the number pattern matches is a number of the
  grammar, and each \<open>e\<close> or \<open>E\<close> in it is followed by \<open>+\<close> or \<open>-\<close>: an \<open>e\<close> followed by a
  digit is never part of a number token.
\<close>

theorem number_exponent_needs_sign:
  "(signed_exponent_numeral p \<longrightarrow>
      regex_match False S_NUMBER p = Some p
    \<and> lex (Lexer p)
       = Inr (Token TOKEN_NUMBER p 0, \<lparr>index = length p, source = p, input = [], stash = []\<rparr>))
   \<and> (signed_exponent_numeral p \<and> ends_number t \<longrightarrow> regex_match False S_NUMBER (p @ t) = Some p)
   \<and> (regex_match False S_NUMBER s = Some q \<longrightarrow>
        spec_number q
      \<and> (\<forall>i < length q. q ! i = 101 \<or> q ! i = 69
            \<longrightarrow> Suc i < length q \<and> (q ! Suc i = 43 \<or> q ! Suc i = 45)))"
proof (intro conjI impI)
  assume "signed_exponent_numeral p"
  then have n: "spec_number p" by (rule signed_exponent_numeral_number)
  from regex_match_number_whole[OF n, of "[]"]
  show "regex_match False S_NUMBER p = Some p" by (simp add: ends_number_def)
  from lex_number_alone[OF n]
  show "lex (Lexer p)
       = Inr (Token TOKEN_NUMBER p 0, \<lparr>index = length p, source = p, input = [], stash = []\<rparr>)" .
next
  assume "signed_exponent_numeral p \<and> ends_number t"
  then show "regex_match False S_NUMBER (p @ t) = Some p"
    using regex_match_number_whole signed_exponent_numeral_number by blast
next
  assume m: "regex_match False S_NUMBER s = Some q"
  then show n: "spec_number q" by (rule regex_match_number)
  show "\<forall>i < length q. q ! i = 101 \<or> q ! i = 69
            \<longrightarrow> Suc i < length q \<and> (q ! Suc i = 43 \<or> q ! Suc i = 45)"
    using number_e_sign[OF n] by blast
qed

theorem number_exponent_witness:
  "signed_exponent_numeral (str ''123.456e+9'')
   \<and> regex_match False S_NUMBER (str ''123.456e+9'') = Some (str ''123.456e+9'')
   \<and> lex (Lexer (str ''123.456e+9''))
       = Inr (Token TOKEN_NUMBER (str ''123.456e+9'') 0,
              \<lparr>index = 10, source = str ''123.456e+9'', input = [], stash = []\<rparr>)
   \<and> ends_number (str '' x'')
   \<and> regex_match False S_NUMBER (str ''123.456e+9'' @ str '' x'') = Some (str ''123.456e+9'')
   \<and> regex_match False S_NUMBER (str ''1e5'') = Some (str ''1'')
   \<and> spec_number (str ''1'')
   \<and> regex_match False S_NUMBER (str ''2e+5'') = Some (str ''2e+5'')
   \<and> (1::nat) < length (str ''2e+5'') \<and> str ''2e+5'' ! 1 = 101
   \<and> Suc 1 < length (str ''2e+5'') \<and> str ''2e+5'' ! Suc 1 = 43"
proof -
  have i: "spec_integer (str ''123'')"
    by (rule spec_integerI[of _ "[]" "str ''123''"]) (simp_all add: str_def spec_digits_def is_digit_def)
  have f: "spec_fraction (str ''.456'')"
    by (simp add: spec_fraction_def str_def spec_digits_def is_digit_def)
  have e: "spec_exponent (str ''e+9'')"
    by (simp add: spec_exponent_def str_def spec_digits_def is_digit_def)
  have "str ''123.456e+9'' = str ''123'' @ str ''.456'' @ str ''e+9''"
    by (simp add: str_def)
  with i f e have n: "signed_exponent_numeral (str ''123.456e+9'')"
    unfolding signed_exponent_numeral_def by blast
  have t: "ends_number (str '' x'')"
    by (simp add: ends_number_def str_def is_digit_def)
  have m1: "regex_match False S_NUMBER (str ''1e5'') = Some (str ''1'')"
    by (simp add: lexer_eval)
  have m2: "regex_match False S_NUMBER (str ''2e+5'') = Some (str ''2e+5'')"
    by (simp add: lexer_eval)
  from number_exponent_needs_sign[of "str ''123.456e+9''" "str '' x''" "str ''1e5''" "str ''1''"]
    number_exponent_needs_sign[of "str ''123.456e+9''" "str '' x''" "str ''2e+5''" "str ''2e+5''"]
    n t m1 m2
  show ?thesis by (simp add: str_def)
qed

text \<open>
  C6. A string token is a double quote, zero or more string characters and a closing
  double quote, where a string character is an escape or a plain character (not a
  control character, not \<open>b\<close>, not \<open>"\<close>, not \<open>\\<close>, not a carriage return, not a line feed):
  every text the string pattern matches has this form, and every text of this form is
  matched whole, whatever follows it, and lexed as one string token. So a literal whose
  characters are followed by a raw control character (a line feed is one) or a raw \<open>b\<close>
  is not matched by the string pattern, and parsing it raises an error.
\<close>

theorem string_token_grammar:
  "(regex_match True S_STRING s = Some p \<longrightarrow> spec_string p)
   \<and> (spec_string p \<longrightarrow>
        regex_match True S_STRING (p @ t) = Some p
      \<and> lex (Lexer p)
         = Inr (Token TOKEN_STRING p 0, \<lparr>index = length p, source = p, input = [], stash = []\<rparr>))
   \<and> (string_chars body \<and> (c \<le> 31 \<or> c = 98) \<longrightarrow>
        regex_match True S_STRING (34 # body @ c # rest) = None
      \<and> (\<exists>e. parse (Suc n) (34 # body @ c # rest) = Some (Inl e)))"
proof (intro conjI impI)
  assume "regex_match True S_STRING s = Some p"
  then show "spec_string p" by (rule regex_match_string)
next
  assume p: "spec_string p"
  then show "regex_match True S_STRING (p @ t) = Some p" by (rule string_whole)
  from p show "lex (Lexer p)
         = Inr (Token TOKEN_STRING p 0, \<lparr>index = length p, source = p, input = [], stash = []\<rparr>)"
    by (rule lex_string_alone)
next
  assume a: "string_chars body \<and> (c \<le> 31 \<or> c = 98)"
  then have b: "string_chars body" and c: "c \<le> 31 \<or> c = 98" by simp_all
  show f: "regex_match True S_STRING (34 # body @ c # rest) = None"
    by (rule string_raw_fails[OF b c])
  from parse_quote_fails[OF f] show "\<exists>e. parse (Suc n) (34 # body @ c # rest) = Some (Inl e)" .
qed

theorem string_token_witness:
  "regex_match True S_STRING (str ''\"a\" x'') = Some (str ''\"a\"'')
   \<and> spec_string (str ''\"a\"'')
   \<and> regex_match True S_STRING (str ''\"a\"'' @ str '',1'') = Some (str ''\"a\"'')
   \<and> lex (Lexer (str ''\"a\"''))
       = Inr (Token TOKEN_STRING (str ''\"a\"'') 0,
              \<lparr>index = 3, source = str ''\"a\"'', input = [], stash = []\<rparr>)
   \<and> string_chars (str ''a'') \<and> (10::nat) \<le> 31
   \<and> regex_match True S_STRING (34 # str ''a'' @ 10 # str ''c\"'') = None
   \<and> (\<exists>e. parse (Suc 0) (34 # str ''a'' @ 10 # str ''c\"'') = Some (Inl e))
   \<and> regex_match True S_STRING (34 # str ''a'' @ 98 # str ''c\"'') = None
   \<and> (\<exists>e. parse (Suc 0) (34 # str ''a'' @ 98 # str ''c\"'') = Some (Inl e))"
proof -
  have m: "regex_match True S_STRING (str ''\"a\" x'') = Some (str ''\"a\"'')"
    by (simp add: lexer_eval)
  have b: "string_chars (str ''a'')"
    unfolding str_def by (simp add: string_chars.plain string_chars.no_chars plain_char_def)
  have l: "(10::nat) \<le> 31 \<or> (10::nat) = 98" "(98::nat) \<le> 31 \<or> (98::nat) = 98" by simp_all
  from string_token_grammar[of "str ''\"a\" x''" "str ''\"a\"''" "str '',1''" "str ''a''" 10 "str ''c\"''" 0]
    string_token_grammar[of "str ''\"a\" x''" "str ''\"a\"''" "str '',1''" "str ''a''" 98 "str ''c\"''" 0]
    m b l
  show ?thesis by (simp add: str_def)
qed




text \<open>
  C10. For every string, number or boolean leaf of the tree of a successful parse, and for
  every such leaf that \<open>parseValue\<close> returns in a state of the lexer of a source text (the
  value of an object member is returned and then dropped by the Property node), parsing
  the lexeme of the leaf as a fresh input returns, with any bound of at least one, a leaf of
  the same type with the same lexeme.
\<close>

theorem leaf_lexeme_reparses:
  "(parse n src = Some (Inr root) \<and> leaf \<in> set (subnodes root) \<and> literal_value leaf = Some v
      \<longrightarrow> (\<exists>leaf'. parse (Suc m) v = Some (Inr leaf') \<and> node_type leaf' = node_type leaf
             \<and> literal_value leaf' = Some v))
 \<and> (lexer_over src lx \<and> parseValue n lx = Some (Inr (root, lx')) \<and> leaf \<in> set (subnodes root)
       \<and> literal_value leaf = Some v
      \<longrightarrow> (\<exists>leaf'. parse (Suc m) v = Some (Inr leaf') \<and> node_type leaf' = node_type leaf
             \<and> literal_value leaf' = Some v))"
proof (intro conjI impI)
  assume a: "parse n src = Some (Inr root) \<and> leaf \<in> set (subnodes root)
             \<and> literal_value leaf = Some v"
  then have "built_from (lexed_from src) root" using parse_built_from by blast
  with a show "\<exists>leaf'. parse (Suc m) v = Some (Inr leaf') \<and> node_type leaf' = node_type leaf
             \<and> literal_value leaf' = Some v"
    using built_leaf_reparses by blast
next
  assume a: "lexer_over src lx \<and> parseValue n lx = Some (Inr (root, lx'))
             \<and> leaf \<in> set (subnodes root) \<and> literal_value leaf = Some v"
  then have "ok_result (lexer_over src)
           (\<lambda>e. lexical_error src e \<or> parser_error (lexed_from src) e)
           (built_from (lexed_from src)) (Inr (root, lx'))"
    using parseValue_over by blast
  then have "built_from (lexed_from src) root" by simp
  with a show "\<exists>leaf'. parse (Suc m) v = Some (Inr leaf') \<and> node_type leaf' = node_type leaf
             \<and> literal_value leaf' = Some v"
    using built_leaf_reparses by blast
qed

theorem leaf_lexeme_reparses_witness:
  "parse (Suc (Suc (Suc (Suc 0)))) (str ''[\"a\",1]'')
     = Some (Inr (ArrayLiteral
         [StringLiteral (str ''\"a\"'') 1 4, NumericLiteral (str ''1'') 5 6] 0 7))
   \<and> StringLiteral (str ''\"a\"'') 1 4
       \<in> set (subnodes (ArrayLiteral
             [StringLiteral (str ''\"a\"'') 1 4, NumericLiteral (str ''1'') 5 6] 0 7))
   \<and> literal_value (StringLiteral (str ''\"a\"'') 1 4) = Some (str ''\"a\"'')
   \<and> (\<exists>leaf'. parse (Suc 0) (str ''\"a\"'') = Some (Inr leaf')
          \<and> node_type leaf' = ''StringLiteral'' \<and> literal_value leaf' = Some (str ''\"a\"''))
   \<and> lexer_over (str ''{\"a\":1}'')
        \<lparr>index = 5, source = str ''{\"a\":1}'', input = str ''1}'', stash = []\<rparr>
   \<and> parseValue (Suc 0)
        \<lparr>index = 5, source = str ''{\"a\":1}'', input = str ''1}'', stash = []\<rparr>
     = Some (Inr (NumericLiteral (str ''1'') 5 6,
          \<lparr>index = 7, source = str ''{\"a\":1}'', input = [],
            stash = [Token TOKEN_PUNCTUATOR (str ''}'') 6]\<rparr>))
   \<and> (\<exists>leaf'. parse (Suc 0) (str ''1'') = Some (Inr leaf')
          \<and> node_type leaf' = ''NumericLiteral'' \<and> literal_value leaf' = Some (str ''1''))"
proof -
  let ?A = "StringLiteral (str ''\"a\"'') 1 4"
  let ?N = "NumericLiteral (str ''1'') 5 6"
  let ?R = "ArrayLiteral [?A, ?N] 0 7"
  let ?S = "str ''{\"a\":1}''"
  let ?L3 = "\<lparr>index = 5, source = ?S, input = str ''1}'', stash = []\<rparr>"
  let ?LB = "\<lparr>index = 7, source = ?S, input = [], stash = [Token TOKEN_PUNCTUATOR (str ''}'') 6]\<rparr>"
  have run: "parse (Suc (Suc (Suc (Suc 0)))) (str ''[\"a\",1]'') = Some (Inr ?R)"
    by (simp add: lexer_eval parser_eval cong: weak_case_cong)
  have mem: "?A \<in> set (subnodes ?R)" by simp
  have val: "literal_value ?A = Some (str ''\"a\"'')" by simp
  have ov: "lexer_over ?S ?L3" by (simp add: lexer_over_def)
  have inner: "parseValue (Suc 0) ?L3 = Some (Inr (?N, ?LB))"
    by (simp add: lexer_eval parser_eval cong: weak_case_cong)
  have mem2: "?N \<in> set (subnodes ?N)" by simp
  have val2: "literal_value ?N = Some (str ''1'')" by simp
  from leaf_lexeme_reparses[of "Suc (Suc (Suc (Suc 0)))" "str ''[\"a\",1]''" ?R ?A
      "str ''\"a\"''" 0] run mem val
  have r1: "\<exists>leaf'. parse (Suc 0) (str ''\"a\"'') = Some (Inr leaf')
          \<and> node_type leaf' = ''StringLiteral'' \<and> literal_value leaf' = Some (str ''\"a\"'')"
    by simp
  from leaf_lexeme_reparses[of "Suc 0" ?S ?N ?N "str ''1''" 0 ?L3 ?LB] ov inner mem2 val2
  have r2: "\<exists>leaf'. parse (Suc 0) (str ''1'') = Some (Inr leaf')
          \<and> node_type leaf' = ''NumericLiteral'' \<and> literal_value leaf' = Some (str ''1'')"
    by simp
  from run mem val r1 ov inner r2 show ?thesis by (intro conjI)
qed

text \<open>
  C9. The claim: for every input that ends inside an unclosed object or array, \<open>is\<close> reads
  \<open>.value\<close> of the \<open>null\<close> that \<open>peek\<close> returns at the end of the input, so the parse aborts
  with that error and not with \<open>Unexpected end of input\<close>.

  When the input ends after the colon of a member, \<open>parseValue\<close> is called, finds no token
  and raises \<open>Unexpected end of input\<close>; when it ends after the key of a member, \<open>ensure\<close>
  reads \<open>.value\<close> of \<open>undefined\<close>. After \<open>{\<close> alone it is \<open>is\<close> that raises.
\<close>

theorem unclosed_object_after_colon:
  "parse (Suc (Suc (Suc 0))) (str ''{\"a\":'')
     = Some (Inl (Error (str ''Unexpected end of input'')))
   \<and> parse (Suc (Suc (Suc 0))) (str ''{\"a\"'') = Some (Inl TypeError_undefined)
   \<and> parse (Suc (Suc (Suc 0))) (str ''{'') = Some (Inl TypeError_null)"
  by (simp add: lexer_eval parser_eval cong: weak_case_cong)

text \<open>
  C9, as the code has it: when \<open>Lexer.all\<close> returns the tokens of the input and the tokens
  end inside an unclosed array or object, every parse with a large enough bound raises the
  error of the place where the tokens end: the error of \<open>is\<close> reading \<open>null\<close> after the
  opening token, after a comma and after a complete element or member; the error of
  \<open>ensure\<close> reading \<open>undefined\<close> after the key of a member; \<open>Unexpected end of input\<close> after the
  colon of a member.
\<close>

theorem unclosed_literal_abort:
  assumes "lexer_all (Lexer src) ts" and "unclosed ts e"
  shows "(\<exists>N. \<forall>n\<ge>N. parse n src = Some (Inl e))
       \<and> (e = TypeError_null \<or> e = TypeError_undefined
          \<or> e = Error (str ''Unexpected end of input''))"
proof
  from unclosed_aborts[OF assms] show "\<exists>N. \<forall>n\<ge>N. parse n src = Some (Inl e)" .
next
  from unclosed_errors(1)[OF assms(2)]
  show "e = TypeError_null \<or> e = TypeError_undefined
          \<or> e = Error (str ''Unexpected end of input'')" .
qed

theorem unclosed_literal_abort_witness:
  "lexer_all (Lexer (str ''[1,''))
     [Token TOKEN_PUNCTUATOR (str ''['') 0, Token TOKEN_NUMBER (str ''1'') 1,
      Token TOKEN_PUNCTUATOR (str '','') 2]
   \<and> unclosed
     [Token TOKEN_PUNCTUATOR (str ''['') 0, Token TOKEN_NUMBER (str ''1'') 1,
      Token TOKEN_PUNCTUATOR (str '','') 2] TypeError_null
   \<and> (\<exists>N. \<forall>n\<ge>N. parse n (str ''[1,'') = Some (Inl TypeError_null))"
proof -
  let ?S = "str ''[1,''"
  let ?T0 = "Token TOKEN_PUNCTUATOR (str ''['') 0"
  let ?T1 = "Token TOKEN_NUMBER (str ''1'') 1"
  let ?T2 = "Token TOKEN_PUNCTUATOR (str '','') 2"
  let ?L1 = "\<lparr>index = 1, source = ?S, input = str ''1,'', stash = []\<rparr>"
  let ?L2 = "\<lparr>index = 2, source = ?S, input = str '','', stash = []\<rparr>"
  let ?L3 = "\<lparr>index = 3, source = ?S, input = [], stash = []\<rparr>"
  have n0: "next_token (Lexer ?S) = Inr (Some ?T0, ?L1)"
    by (simp add: lexer_eval cong: weak_case_cong)
  have n1: "next_token ?L1 = Inr (Some ?T1, ?L2)"
    by (simp add: lexer_eval cong: weak_case_cong)
  have n2: "next_token ?L2 = Inr (Some ?T2, ?L3)"
    by (simp add: lexer_eval cong: weak_case_cong)
  have n3: "next_token ?L3 = Inr (None, ?L3)"
    by (simp add: lexer_eval cong: weak_case_cong)
  from n3 have "lexer_all ?L3 []" by (rule lexer_all.all_done)
  with n2 have "lexer_all ?L2 [?T2]" by (rule lexer_all.all_more)
  with n1 have "lexer_all ?L1 [?T1, ?T2]" by (rule lexer_all.all_more)
  with n0 have toks: "lexer_all (Lexer ?S) [?T0, ?T1, ?T2]" by (rule lexer_all.all_more)
  have "literal_node ?T1 \<noteq> None" by (simp add: literal_node_def Token_def)
  then have v: "value_tokens [?T1]" by (rule value_tokens_elements_tokens_members_tokens.literal)
  have k: "t_value ?T2 = str '',''" by (simp add: Token_def)
  from v k unclosed_unclosed_elements_unclosed_members.elements_end
  have "unclosed_elements ([?T1] @ ?T2 # []) TypeError_null"
    by (rule unclosed_unclosed_elements_unclosed_members.element_more)
  then have es: "unclosed_elements [?T1, ?T2] TypeError_null" by simp
  have a: "t_value ?T0 = str ''[''" by (simp add: Token_def)
  from a es have un: "unclosed [?T0, ?T1, ?T2] TypeError_null"
    by (rule unclosed_unclosed_elements_unclosed_members.open_array)
  from unclosed_literal_abort[OF toks un]
  have "\<exists>N. \<forall>n\<ge>N. parse n ?S = Some (Inl TypeError_null)" by blast
  with toks un show ?thesis by (intro conjI)
qed

end
